theory Spec2Isabelle
  imports Main "HOL-Library.Word" "HOL-Library.Sublist" "HOL-Library.Monad_Syntax"
begin

section \<open>Go strings, runes and the conversions between them\<close>

text \<open>
  A Go \<^verbatim>\<open>string\<close> is a sequence of bytes; a \<^verbatim>\<open>rune\<close> is a code point (an
  \<^verbatim>\<open>int32\<close>; the stemmer only ever holds runes that a conversion from a string
  produced, so they are modelled as natural numbers). The stemmer keeps its word as
  \<^verbatim>\<open>[]rune\<close> and converts to \<^verbatim>\<open>string\<close> and back around every suffix test, so both
  conversions are part of the model: \<^verbatim>\<open>string(rs)\<close> is UTF-8 encoding with every
  invalid code point replaced by U+FFFD, \<^verbatim>\<open>[]rune(s)\<close> is UTF-8 decoding with every
  byte that starts no well-formed sequence read as U+FFFD.
\<close>

type_synonym byte = "8 word"
type_synonym gostring = "byte list"
type_synonym rune = nat

definition RuneError :: rune where
  "RuneError = 0xFFFD"

definition valid_rune :: "rune \<Rightarrow> bool" where
  "valid_rune r = (r < 0xD800 \<or> (0xE000 \<le> r \<and> r \<le> 0x10FFFF))"

definition EncodeRune :: "rune \<Rightarrow> gostring" where
  "EncodeRune r0 =
     (let r = (if valid_rune r0 then r0 else RuneError) in
      if r < 0x80 then [of_nat r]
      else if r < 0x800 then [of_nat (0xC0 + r div 64), of_nat (0x80 + r mod 64)]
      else if r < 0x10000 then
        [of_nat (0xE0 + r div 4096), of_nat (0x80 + (r div 64) mod 64), of_nat (0x80 + r mod 64)]
      else
        [of_nat (0xF0 + r div 262144), of_nat (0x80 + (r div 4096) mod 64),
         of_nat (0x80 + (r div 64) mod 64), of_nat (0x80 + r mod 64)])"

definition string_of_runes :: "rune list \<Rightarrow> gostring" where
  "string_of_runes rs = concat (map EncodeRune rs)"

definition is_cont :: "nat \<Rightarrow> bool" where
  "is_cont b = (0x80 \<le> b \<and> b \<le> 0xBF)"

text \<open>
  The range a second byte must lie in, by first byte (the accept ranges of Go's
  \<^verbatim>\<open>unicode/utf8\<close>, which exclude overlong forms, surrogates and values above U+10FFFF).
\<close>

definition second_lo :: "nat \<Rightarrow> nat" where
  "second_lo b0 = (if b0 = 0xE0 then 0xA0 else if b0 = 0xF0 then 0x90 else 0x80)"

definition second_hi :: "nat \<Rightarrow> nat" where
  "second_hi b0 = (if b0 = 0xED then 0x9F else if b0 = 0xF4 then 0x8F else 0xBF)"

text \<open>\<^verbatim>\<open>DecodeRune\<close> returns the first code point of a string and its width in bytes.\<close>

fun DecodeRune :: "gostring \<Rightarrow> rune \<times> nat" where
  "DecodeRune [] = (RuneError, 0)"
| "DecodeRune (c0 # cs) =
     (let b0 = unat c0 in
      if b0 < 0x80 then (b0, 1)
      else if 0xC2 \<le> b0 \<and> b0 \<le> 0xDF then
        (case cs of
           c1 # _ \<Rightarrow>
             if is_cont (unat c1) then ((b0 - 0xC0) * 64 + (unat c1 - 0x80), 2)
             else (RuneError, 1)
         | _ \<Rightarrow> (RuneError, 1))
      else if 0xE0 \<le> b0 \<and> b0 \<le> 0xEF then
        (case cs of
           c1 # c2 # _ \<Rightarrow>
             if second_lo b0 \<le> unat c1 \<and> unat c1 \<le> second_hi b0 \<and> is_cont (unat c2) then
               ((b0 - 0xE0) * 4096 + (unat c1 - 0x80) * 64 + (unat c2 - 0x80), 3)
             else (RuneError, 1)
         | _ \<Rightarrow> (RuneError, 1))
      else if 0xF0 \<le> b0 \<and> b0 \<le> 0xF4 then
        (case cs of
           c1 # c2 # c3 # _ \<Rightarrow>
             if second_lo b0 \<le> unat c1 \<and> unat c1 \<le> second_hi b0 \<and> is_cont (unat c2)
                \<and> is_cont (unat c3) then
               ((b0 - 0xF0) * 262144 + (unat c1 - 0x80) * 4096 + (unat c2 - 0x80) * 64
                  + (unat c3 - 0x80), 4)
             else (RuneError, 1)
         | _ \<Rightarrow> (RuneError, 1))
      else (RuneError, 1))"

fun runes_of_string :: "gostring \<Rightarrow> rune list" where
  "runes_of_string [] = []"
| "runes_of_string (c # cs) =
     (case DecodeRune (c # cs) of (r, n) \<Rightarrow> r # runes_of_string (drop (n - 1) cs))"

subsection \<open>The functions of package \<^verbatim>\<open>strings\<close> the stemmer calls\<close>

definition HasSuffix :: "gostring \<Rightarrow> gostring \<Rightarrow> bool" where
  "HasSuffix s suffix' =
     (length suffix' \<le> length s \<and> drop (length s - length suffix') s = suffix')"

definition TrimSuffix :: "gostring \<Rightarrow> gostring \<Rightarrow> gostring" where
  "TrimSuffix s suffix' =
     (if HasSuffix s suffix' then take (length s - length suffix') s else s)"

fun Contains :: "gostring \<Rightarrow> gostring \<Rightarrow> bool" where
  "Contains [] substr = (substr = [])"
| "Contains (c # cs) substr = (take (length substr) (c # cs) = substr \<or> Contains cs substr)"

fun Join :: "gostring list \<Rightarrow> gostring \<Rightarrow> gostring" where
  "Join [] sep = []"
| "Join [e] sep = e"
| "Join (e # es) sep = e @ sep @ Join es sep"

section \<open>The suffix tables\<close>

text \<open>The Cyrillic letters of the tables and of the documented examples, by code point.\<close>

abbreviation cyr_a :: rune where "cyr_a \<equiv> 0x430"
abbreviation cyr_ve :: rune where "cyr_ve \<equiv> 0x432"
abbreviation cyr_ghe :: rune where "cyr_ghe \<equiv> 0x433"
abbreviation cyr_de :: rune where "cyr_de \<equiv> 0x434"
abbreviation cyr_ie :: rune where "cyr_ie \<equiv> 0x435"
abbreviation cyr_ze :: rune where "cyr_ze \<equiv> 0x437"
abbreviation cyr_i :: rune where "cyr_i \<equiv> 0x438"
abbreviation cyr_short_i :: rune where "cyr_short_i \<equiv> 0x439"
abbreviation cyr_ka :: rune where "cyr_ka \<equiv> 0x43A"
abbreviation cyr_el :: rune where "cyr_el \<equiv> 0x43B"
abbreviation cyr_em :: rune where "cyr_em \<equiv> 0x43C"
abbreviation cyr_en :: rune where "cyr_en \<equiv> 0x43D"
abbreviation cyr_o :: rune where "cyr_o \<equiv> 0x43E"
abbreviation cyr_er :: rune where "cyr_er \<equiv> 0x440"
abbreviation cyr_es :: rune where "cyr_es \<equiv> 0x441"
abbreviation cyr_te :: rune where "cyr_te \<equiv> 0x442"
abbreviation cyr_u :: rune where "cyr_u \<equiv> 0x443"
abbreviation cyr_ha :: rune where "cyr_ha \<equiv> 0x445"
abbreviation cyr_sha :: rune where "cyr_sha \<equiv> 0x448"
abbreviation cyr_shcha :: rune where "cyr_shcha \<equiv> 0x449"
abbreviation cyr_yeru :: rune where "cyr_yeru \<equiv> 0x44B"
abbreviation cyr_soft :: rune where "cyr_soft \<equiv> 0x44C"
abbreviation cyr_e :: rune where "cyr_e \<equiv> 0x44D"
abbreviation cyr_yu :: rune where "cyr_yu \<equiv> 0x44E"
abbreviation cyr_ya :: rune where "cyr_ya \<equiv> 0x44F"
abbreviation cyr_io :: rune where "cyr_io \<equiv> 0x451"
abbreviation cyr_cap_a :: rune where "cyr_cap_a \<equiv> 0x410"
abbreviation cyr_cap_em :: rune where "cyr_cap_em \<equiv> 0x41C"
abbreviation cyr_cap_pe :: rune where "cyr_cap_pe \<equiv> 0x41F"

text \<open>
  A string literal of the source is the UTF-8 encoding of the code points written in it.
  Each table below lists the runes of the literals in source order.
\<close>

definition VOWEL_runes :: "rune list" where
  "VOWEL_runes =
     [cyr_a, cyr_ie, cyr_io, cyr_i, cyr_o, cyr_u, cyr_yeru, cyr_e, cyr_yu, cyr_ya]"

definition VOWEL :: gostring where
  "VOWEL = string_of_runes VOWEL_runes"

definition suffixNN_runes :: "rune list list" where
  "suffixNN_runes = [[cyr_en, cyr_en]]"

definition suffixNN :: "gostring list" where
  "suffixNN = map string_of_runes suffixNN_runes"

definition suffixPerfectiveGerunds_runes :: "rune list list list" where
  "suffixPerfectiveGerunds_runes =
     [[[cyr_ve], [cyr_ve, cyr_sha, cyr_i], [cyr_ve, cyr_sha, cyr_i, cyr_es, cyr_soft],
       [cyr_ve], [cyr_ve, cyr_sha, cyr_i], [cyr_ve, cyr_sha, cyr_i, cyr_es, cyr_soft]],
      [[cyr_i, cyr_ve], [cyr_i, cyr_ve, cyr_sha, cyr_i],
       [cyr_i, cyr_ve, cyr_sha, cyr_i, cyr_es, cyr_soft],
       [cyr_yeru, cyr_ve], [cyr_yeru, cyr_ve, cyr_sha, cyr_i],
       [cyr_yeru, cyr_ve, cyr_sha, cyr_i, cyr_es, cyr_soft]]]"

definition suffixPerfectiveGerunds :: "gostring list list" where
  "suffixPerfectiveGerunds = map (map string_of_runes) suffixPerfectiveGerunds_runes"

definition suffixReflexives_runes :: "rune list list" where
  "suffixReflexives_runes = [[cyr_es, cyr_ya], [cyr_es, cyr_soft]]"

definition suffixReflexives :: "gostring list" where
  "suffixReflexives = map string_of_runes suffixReflexives_runes"

definition suffixAdjective_runes :: "rune list list" where
  "suffixAdjective_runes =
     [[cyr_ie, cyr_ie], [cyr_i, cyr_ie], [cyr_yeru, cyr_ie], [cyr_o, cyr_ie],
      [cyr_i, cyr_em, cyr_i], [cyr_yeru, cyr_em, cyr_i], [cyr_ie, cyr_short_i],
      [cyr_i, cyr_short_i], [cyr_yeru, cyr_short_i], [cyr_o, cyr_short_i],
      [cyr_ie, cyr_em], [cyr_i, cyr_em], [cyr_yeru, cyr_em], [cyr_o, cyr_em],
      [cyr_ie, cyr_ghe, cyr_o], [cyr_o, cyr_ghe, cyr_o], [cyr_ie, cyr_em, cyr_u],
      [cyr_o, cyr_em, cyr_u], [cyr_i, cyr_ha], [cyr_yeru, cyr_ha], [cyr_u, cyr_yu],
      [cyr_yu, cyr_yu], [cyr_a, cyr_ya], [cyr_ya, cyr_ya], [cyr_o, cyr_yu],
      [cyr_ie, cyr_yu]]"

definition suffixAdjective :: "gostring list" where
  "suffixAdjective = map string_of_runes suffixAdjective_runes"

definition suffixVerb_runes :: "rune list list list" where
  "suffixVerb_runes =
     [[[cyr_el, cyr_a], [cyr_en, cyr_a], [cyr_ie, cyr_te, cyr_ie],
       [cyr_short_i, cyr_te, cyr_ie], [cyr_el, cyr_i], [cyr_short_i], [cyr_el],
       [cyr_ie, cyr_em], [cyr_en], [cyr_el, cyr_o], [cyr_en, cyr_o], [cyr_ie, cyr_te],
       [cyr_yu, cyr_te], [cyr_en, cyr_yeru], [cyr_te, cyr_soft],
       [cyr_ie, cyr_sha, cyr_soft], [cyr_en, cyr_en, cyr_o]],
      [[cyr_i, cyr_el, cyr_a], [cyr_yeru, cyr_el, cyr_a], [cyr_ie, cyr_en, cyr_a],
       [cyr_ie, cyr_short_i, cyr_te, cyr_ie], [cyr_u, cyr_short_i, cyr_te, cyr_ie],
       [cyr_i, cyr_te, cyr_ie], [cyr_i, cyr_el, cyr_i], [cyr_yeru, cyr_el, cyr_i],
       [cyr_ie, cyr_short_i], [cyr_u, cyr_short_i], [cyr_i, cyr_el], [cyr_yeru, cyr_el],
       [cyr_i, cyr_em], [cyr_yeru, cyr_em], [cyr_ie, cyr_en],
       [cyr_i, cyr_el, cyr_o], [cyr_yeru, cyr_el, cyr_o], [cyr_ie, cyr_en, cyr_o],
       [cyr_ya, cyr_te], [cyr_u, cyr_ie, cyr_te], [cyr_u, cyr_yu, cyr_te], [cyr_i, cyr_te],
       [cyr_yeru, cyr_te], [cyr_ie, cyr_en, cyr_yeru], [cyr_i, cyr_te, cyr_soft],
       [cyr_yeru, cyr_te, cyr_soft], [cyr_i, cyr_sha, cyr_soft], [cyr_u, cyr_yu],
       [cyr_yu]]]"

definition suffixVerb :: "gostring list list" where
  "suffixVerb = map (map string_of_runes) suffixVerb_runes"

definition suffixNoun_runes :: "rune list list" where
  "suffixNoun_runes =
     [[cyr_a], [cyr_ie, cyr_ve], [cyr_o, cyr_ve], [cyr_i, cyr_ie], [cyr_soft, cyr_ie],
      [cyr_ie], [cyr_i, cyr_ya, cyr_em, cyr_i], [cyr_ya, cyr_em, cyr_i],
      [cyr_a, cyr_em, cyr_i], [cyr_ie, cyr_i], [cyr_i, cyr_i], [cyr_i],
      [cyr_i, cyr_ie, cyr_short_i], [cyr_ie, cyr_short_i], [cyr_o, cyr_short_i],
      [cyr_i, cyr_short_i], [cyr_short_i], [cyr_i, cyr_ya, cyr_em],
      [cyr_ya, cyr_em], [cyr_i, cyr_ie, cyr_em], [cyr_ie, cyr_em], [cyr_a, cyr_em],
      [cyr_o, cyr_em], [cyr_o], [cyr_u], [cyr_a, cyr_ha], [cyr_i, cyr_ya, cyr_ha],
      [cyr_ya, cyr_ha], [cyr_yeru], [cyr_soft], [cyr_i, cyr_yu], [cyr_soft, cyr_yu],
      [cyr_yu], [cyr_i, cyr_ya], [cyr_soft, cyr_ya], [cyr_ya]]"

definition suffixNoun :: "gostring list" where
  "suffixNoun = map string_of_runes suffixNoun_runes"

definition suffixSuperlative_runes :: "rune list list" where
  "suffixSuperlative_runes =
     [[cyr_ie, cyr_short_i, cyr_sha], [cyr_ie, cyr_short_i, cyr_sha, cyr_ie]]"

definition suffixSuperlative :: "gostring list" where
  "suffixSuperlative = map string_of_runes suffixSuperlative_runes"

definition suffixSoftSign_runes :: "rune list list" where
  "suffixSoftSign_runes = [[cyr_soft]]"

definition suffixSoftSign :: "gostring list" where
  "suffixSoftSign = map string_of_runes suffixSoftSign_runes"

definition suffixI_runes :: "rune list list" where
  "suffixI_runes = [[cyr_i]]"

definition suffixI :: "gostring list" where
  "suffixI = map string_of_runes suffixI_runes"

definition suffixDerivational_runes :: "rune list list" where
  "suffixDerivational_runes = [[cyr_o, cyr_es, cyr_te], [cyr_o, cyr_es, cyr_te, cyr_soft]]"

definition suffixDerivational :: "gostring list" where
  "suffixDerivational = map string_of_runes suffixDerivational_runes"

text \<open>
  \<^verbatim>\<open>appendPrefix\<close> walks the strings, then the packs, then the prefixes of a pack, and
  appends \<^verbatim>\<open>prefix + str\<close> each time.
\<close>

definition appendPrefix :: "'a list list \<Rightarrow> 'a list list list \<Rightarrow> 'a list list" where
  "appendPrefix strs prefixesPacks =
     concat (map (\<lambda>str. concat (map (\<lambda>prefixes. map (\<lambda>prefix'. prefix' @ str) prefixes)
                                      prefixesPacks)) strs)"

definition participle1_runes :: "rune list list" where
  "participle1_runes =
     [[cyr_ie, cyr_em], [cyr_en, cyr_en], [cyr_ve, cyr_sha], [cyr_yu, cyr_shcha], [cyr_shcha]]"

definition participle2_runes :: "rune list list" where
  "participle2_runes =
     [[cyr_i, cyr_ve, cyr_sha], [cyr_yeru, cyr_ve, cyr_sha], [cyr_u, cyr_yu, cyr_shcha]]"

definition suffixParticiple :: "gostring list list" where
  "suffixParticiple =
     [appendPrefix suffixAdjective [map string_of_runes participle1_runes],
      appendPrefix suffixAdjective [map string_of_runes participle2_runes]]"

section \<open>The stemmer\<close>

text \<open>
  The struct \<^verbatim>\<open>RuStemmer\<close>. Its mutex only serialises the calls on the shared instance
  and is left out; every method takes the receiver and returns it updated. A panic of
  the Go runtime (an index or a slice bound out of range) is the result \<open>None\<close>.
  The functions \<^verbatim>\<open>GetWordBase\<close> and \<^verbatim>\<open>NormalizeText\<close> of the package lock the shared
  instance and call the method of the same name on it, in whatever state earlier calls
  left it: what holds of a method for every receiver holds of them.
\<close>

record RuStemmer =
  word :: "rune list"
  RV :: int
  R2 :: int

definition New :: RuStemmer where
  "New = \<lparr>word = runes_of_string [], RV = 0, R2 = 0\<rparr>"

text \<open>\<^verbatim>\<open>xs[i]\<close> on a slice: a panic unless \<open>0 \<le> i < len(xs)\<close>.\<close>

definition index :: "'a list \<Rightarrow> int \<Rightarrow> 'a option" where
  "index xs i = (if 0 \<le> i \<and> i < int (length xs) then Some (xs ! nat i) else None)"

definition isVowel :: "gostring \<Rightarrow> bool" where
  "isVowel char = Contains VOWEL char"

text \<open>
  The loop of \<^verbatim>\<open>findRegions\<close>, from index \<open>i\<close> in scanner state \<open>state\<close>. A
  \<^verbatim>\<open>break\<close> leaves the \<^verbatim>\<open>switch\<close> only; the \<^verbatim>\<open>return\<close> of state 2 leaves the loop.
\<close>

function findRegions_loop :: "RuStemmer \<Rightarrow> int \<Rightarrow> int \<Rightarrow> RuStemmer option" where
  "findRegions_loop r i state =
     (if i < int (length (word r)) then
        (case (index (word r) (i - 1), index (word r) i) of
           (Some prevRune, Some curRune) \<Rightarrow>
             (let prevChar = string_of_runes [prevRune];
                  char = string_of_runes [curRune] in
              if state = 0 then
                (if isVowel char then findRegions_loop (r\<lparr>RV := i + 1\<rparr>) (i + 1) 1
                 else findRegions_loop r (i + 1) state)
              else if state = 1 then
                (if isVowel prevChar \<and> \<not> isVowel char then findRegions_loop r (i + 1) 2
                 else findRegions_loop r (i + 1) state)
              else if state = 2 then
                (if isVowel prevChar \<and> \<not> isVowel char then Some (r\<lparr>R2 := i + 1\<rparr>)
                 else findRegions_loop r (i + 1) state)
              else findRegions_loop r (i + 1) state)
         | _ \<Rightarrow> None)
      else Some r)"
  by pat_completeness auto
termination
  by (relation "measure (\<lambda>(r, i, state). nat (int (length (word r)) - i))") auto

definition findRegions :: "RuStemmer \<Rightarrow> RuStemmer option" where
  "findRegions r = findRegions_loop r 1 0"

fun trimFirstSuffix :: "gostring \<Rightarrow> gostring list \<Rightarrow> bool \<Rightarrow> gostring" where
  "trimFirstSuffix word' [] isAYA = word'"
| "trimFirstSuffix word' (suffix' # suffixes') isAYA =
     (if isAYA \<and> \<not> (HasSuffix word' (string_of_runes [cyr_a] @ suffix')
                      \<or> HasSuffix word' (string_of_runes [cyr_ya] @ suffix'))
      then trimFirstSuffix word' suffixes' isAYA
      else if TrimSuffix word' suffix' \<noteq> word' then TrimSuffix word' suffix'
      else trimFirstSuffix word' suffixes' isAYA)"

text \<open>
  \<^verbatim>\<open>removeEndings\<close> returns whether a suffix was removed, and the receiver. The slice
  \<^verbatim>\<open>r.word[:region]\<close> panics on a negative bound and \<^verbatim>\<open>suffixesPacks[0]\<close> on a call
  without a pack.
\<close>

definition removeEndings ::
  "RuStemmer \<Rightarrow> int \<Rightarrow> gostring list list \<Rightarrow> (bool \<times> RuStemmer) option" where
  "removeEndings r region0 suffixesPacks =
     (let region = (if region0 > int (length (word r)) then int (length (word r)) else region0) in
      if region < 0 then None
      else
        (let prefix' = take (nat region) (word r);
             word' = string_of_runes (drop (length prefix') (word r)) in
         case suffixesPacks of
           [] \<Rightarrow> None
         | suffixes' # _ \<Rightarrow>
             if length suffixesPacks = 2 \<and> trimFirstSuffix word' suffixes' True \<noteq> word' then
               Some (True, r\<lparr>word := runes_of_string
                        (string_of_runes prefix' @ trimFirstSuffix word' suffixes' True)\<rparr>)
             else
               (let suffixes' = (if length suffixesPacks = 2 then suffixesPacks ! 1 else suffixes') in
                if trimFirstSuffix word' suffixes' False \<noteq> word' then
                  Some (True, r\<lparr>word := runes_of_string
                           (string_of_runes prefix' @ trimFirstSuffix word' suffixes' False)\<rparr>)
                else Some (False, r))))"

text \<open>
  Step 1 of \<^verbatim>\<open>GetWordBase\<close>: the perfective gerund, else the reflexive and then the first
  of participle, adjective, verb and noun that is found. The \<^verbatim>\<open>||\<close> of the source does
  not evaluate its right operand when the left one is true.
\<close>

definition Step1 :: "RuStemmer \<Rightarrow> RuStemmer option" where
  "Step1 r0 = do {
     (gerund, r) \<leftarrow> removeEndings r0 (RV r0)
                       [suffixPerfectiveGerunds ! 0, suffixPerfectiveGerunds ! 1];
     if \<not> gerund then do {
       (_, r) \<leftarrow> removeEndings r (RV r) [suffixReflexives];
       (participle, r) \<leftarrow> removeEndings r (RV r) [suffixParticiple ! 0, suffixParticiple ! 1];
       (ife, r) \<leftarrow> (if participle then Some (True, r)
                    else removeEndings r (RV r) [suffixAdjective]);
       if \<not> ife then do {
         (verb, r) \<leftarrow> removeEndings r (RV r) [suffixVerb ! 0, suffixVerb ! 1];
         if \<not> verb then do {
           (_, r) \<leftarrow> removeEndings r (RV r) [suffixNoun];
           Some r
         } else Some r
       } else Some r
     } else Some r
   }"

definition GetWordBase :: "RuStemmer \<Rightarrow> gostring \<Rightarrow> (gostring \<times> RuStemmer) option" where
  "GetWordBase r0 word' = do {
     r \<leftarrow> findRegions (r0\<lparr>word := runes_of_string word', RV := 0, R2 := 0\<rparr>);
     r \<leftarrow> Step1 r;
     (_, r) \<leftarrow> removeEndings r (RV r) [suffixI];
     (_, r) \<leftarrow> removeEndings r (R2 r) [suffixDerivational];
     (nn, r) \<leftarrow> removeEndings r (RV r) [suffixNN];
     r \<leftarrow> Some (if nn then r\<lparr>word := runes_of_string
                              (string_of_runes (word r) @ string_of_runes [cyr_en])\<rparr>
                else r);
     (_, r) \<leftarrow> removeEndings r (RV r) [suffixSuperlative];
     (_, r) \<leftarrow> removeEndings r (RV r) [suffixSoftSign];
     Some (string_of_runes (word r), r)
   }"

subsection \<open>Text normalisation\<close>

text \<open>
  The pattern \<^verbatim>\<open>[\p{L}\d_]+\<close>: a rune of Unicode's category L, an ASCII digit or the
  underscore. The table of category L belongs to Go's \<^verbatim>\<open>unicode\<close> package and is a
  parameter \<open>L\<close> here.
\<close>

definition word_rune :: "(rune \<Rightarrow> bool) \<Rightarrow> rune \<Rightarrow> bool" where
  "word_rune L r = (L r \<or> (0x30 \<le> r \<and> r \<le> 0x39) \<or> r = 0x5F)"

text \<open>
  \<^verbatim>\<open>FindAllString(text, -1)\<close> for that pattern: the matcher reads the text rune by rune
  (a byte that decodes to no rune is U+FFFD, of width 1), a match is a maximal run of
  runes of the class, and the matches come in text order. \<open>cur\<close> holds the bytes of the
  match being read. The width of a rune of a non-empty string is at least 1, so the
  rest of \<open>c # cs\<close> after a rune of width \<open>n\<close> is \<open>drop (n - 1) cs\<close>.
\<close>

fun FindAllString_from :: "(rune \<Rightarrow> bool) \<Rightarrow> gostring \<Rightarrow> gostring \<Rightarrow> gostring list" where
  "FindAllString_from L cur [] = (if cur = [] then [] else [cur])"
| "FindAllString_from L cur (c # cs) =
     (case DecodeRune (c # cs) of (r, n) \<Rightarrow>
        if word_rune L r then FindAllString_from L (cur @ c # take (n - 1) cs) (drop (n - 1) cs)
        else (if cur = [] then [] else [cur]) @ FindAllString_from L [] (drop (n - 1) cs))"

definition FindAllString :: "(rune \<Rightarrow> bool) \<Rightarrow> gostring \<Rightarrow> gostring list" where
  "FindAllString L text = FindAllString_from L [] text"

text \<open>The loop of \<^verbatim>\<open>NormalizeText\<close> replaces each word by its base, in order.\<close>

fun NormalizeText_loop :: "RuStemmer \<Rightarrow> gostring list \<Rightarrow> (gostring list \<times> RuStemmer) option" where
  "NormalizeText_loop r [] = Some ([], r)"
| "NormalizeText_loop r (word' # words) = do {
     (base, r) \<leftarrow> GetWordBase r word';
     (bases, r) \<leftarrow> NormalizeText_loop r words;
     Some (base # bases, r)
   }"

definition NormalizeText ::
  "(rune \<Rightarrow> bool) \<Rightarrow> RuStemmer \<Rightarrow> gostring \<Rightarrow> (gostring \<times> RuStemmer) option" where
  "NormalizeText L r text = do {
     (words, r) \<leftarrow> NormalizeText_loop r (FindAllString L text);
     Some (Join words (string_of_runes [0x20]), r)
   }"

subsection \<open>The examples of the test file\<close>

text \<open>
  \<^verbatim>\<open>ExampleNormalizeText\<close> prints the normalisation of an address. \<open>example_text\<close> is its
  text, rune by rune (\<open>0x2E\<close> the full stop, \<open>0x2C\<close> the comma, \<open>0x20\<close> the space,
  \<open>0x33\<close> and \<open>0x31\<close> the digits 3 and 1); \<open>example_words\<close> are its words,
  \<open>example_bases\<close> their documented bases and \<open>example_normalized\<close> the documented result.
\<close>

definition example_text :: "rune list" where
  "example_text =
     [cyr_ghe, 0x2E, 0x20, cyr_cap_em, cyr_o, cyr_es, cyr_ka, cyr_ve, cyr_a, 0x2C, 0x20,
      cyr_u, cyr_el, 0x2E, 0x20, cyr_cap_pe, cyr_o, cyr_el, cyr_ya, cyr_er, cyr_en, cyr_a,
      cyr_ya, 0x2C, 0x20, cyr_de, 0x2E, 0x20, 0x33, 0x31, cyr_cap_a, 0x2C, 0x20, cyr_es,
      cyr_te, cyr_er, 0x2E, 0x20, 0x31]"

definition example_words :: "rune list list" where
  "example_words =
     [[cyr_ghe], [cyr_cap_em, cyr_o, cyr_es, cyr_ka, cyr_ve, cyr_a], [cyr_u, cyr_el],
      [cyr_cap_pe, cyr_o, cyr_el, cyr_ya, cyr_er, cyr_en, cyr_a, cyr_ya], [cyr_de],
      [0x33, 0x31, cyr_cap_a], [cyr_es, cyr_te, cyr_er], [0x31]]"

definition example_bases :: "rune list list" where
  "example_bases =
     [[cyr_ghe], [cyr_cap_em, cyr_o, cyr_es, cyr_ka, cyr_ve], [cyr_u, cyr_el],
      [cyr_cap_pe, cyr_o, cyr_el, cyr_ya, cyr_er, cyr_en], [cyr_de],
      [0x33, 0x31, cyr_cap_a], [cyr_es, cyr_te, cyr_er], [0x31]]"

definition example_normalized :: "rune list" where
  "example_normalized =
     [cyr_ghe, 0x20, cyr_cap_em, cyr_o, cyr_es, cyr_ka, cyr_ve, 0x20, cyr_u, cyr_el, 0x20,
      cyr_cap_pe, cyr_o, cyr_el, cyr_ya, cyr_er, cyr_en, 0x20, cyr_de, 0x20, 0x33, 0x31,
      cyr_cap_a, 0x20, cyr_es, cyr_te, cyr_er, 0x20, 0x31]"

section \<open>Vocabulary of the properties\<close>

text \<open>
  The runes a conversion from a string can produce are the Unicode scalar values
  (\<open>valid_rune\<close>); the field \<^verbatim>\<open>word\<close> is private and only ever assigned such a
  conversion, so every word the stemmer holds satisfies \<open>valid_runes\<close>.
\<close>

definition valid_runes :: "rune list \<Rightarrow> bool" where
  "valid_runes rs = list_all valid_rune rs"

text \<open>
  \<open>trimmed r r'\<close>: the state \<open>r'\<close> is \<open>r\<close> with runes taken off the end of the word.
  \<open>regions_ok\<close> is the invariant of the state between the steps of \<^verbatim>\<open>GetWordBase\<close>.
\<close>

definition trimmed :: "RuStemmer \<Rightarrow> RuStemmer \<Rightarrow> bool" where
  "trimmed r r' = (prefix (word r') (word r) \<and> RV r' = RV r \<and> R2 r' = R2 r)"

definition regions_ok :: "RuStemmer \<Rightarrow> bool" where
  "regions_ok r = (valid_runes (word r) \<and> 0 \<le> RV r \<and> 0 \<le> R2 r)"

text \<open>
  The two suffix tests on runes, and the removal of a found suffix: the rune-level
  reading of \<^verbatim>\<open>trimFirstSuffix\<close> that the lemmas below justify.
\<close>

definition plain_match :: "rune list \<Rightarrow> rune list \<Rightarrow> bool" where
  "plain_match tail s = (s \<noteq> [] \<and> suffix s tail)"

definition gated_match :: "rune list \<Rightarrow> rune list \<Rightarrow> bool" where
  "gated_match tail s = (s \<noteq> [] \<and> (suffix (cyr_a # s) tail \<or> suffix (cyr_ya # s) tail))"

definition strip :: "RuStemmer \<Rightarrow> rune list option \<Rightarrow> bool \<times> RuStemmer" where
  "strip r m = (case m of None \<Rightarrow> (False, r)
                | Some s \<Rightarrow> (True, r\<lparr>word := take (length (word r) - length s) (word r)\<rparr>))"

text \<open>
  The index of the first vowel of a list of runes whose first rune has index \<open>k\<close>.
\<close>

fun first_vowel_from :: "nat \<Rightarrow> rune list \<Rightarrow> nat option" where
  "first_vowel_from k [] = None"
| "first_vowel_from k (c # cs) =
     (if c \<in> set VOWEL_runes then Some k else first_vowel_from (Suc k) cs)"

text \<open>
  Step 1 with a record of its calls: \<open>Step1_attempts\<close> is \<open>Step1\<close>, call for call, and
  notes after each call of \<^verbatim>\<open>removeEndings\<close> which kind of ending was tried and whether
  one was removed. \<open>one_branch\<close> lists the five records a run of step 1 can leave.
\<close>

datatype ending = PerfectiveGerund | Reflexive | Participle | Adjective | Verb | Noun

definition Step1_attempts :: "RuStemmer \<Rightarrow> ((ending \<times> bool) list \<times> RuStemmer) option" where
  "Step1_attempts r0 = do {
     (gerund, r) \<leftarrow> removeEndings r0 (RV r0)
                       [suffixPerfectiveGerunds ! 0, suffixPerfectiveGerunds ! 1];
     log \<leftarrow> Some [(PerfectiveGerund, gerund)];
     if \<not> gerund then do {
       (reflexive, r) \<leftarrow> removeEndings r (RV r) [suffixReflexives];
       log \<leftarrow> Some (log @ [(Reflexive, reflexive)]);
       (participle, r) \<leftarrow> removeEndings r (RV r) [suffixParticiple ! 0, suffixParticiple ! 1];
       log \<leftarrow> Some (log @ [(Participle, participle)]);
       (ife, log, r) \<leftarrow>
          (if participle then Some (True, log, r)
           else do {
             (adjective, r) \<leftarrow> removeEndings r (RV r) [suffixAdjective];
             Some (adjective, log @ [(Adjective, adjective)], r)
           });
       if \<not> ife then do {
         (verb, r) \<leftarrow> removeEndings r (RV r) [suffixVerb ! 0, suffixVerb ! 1];
         log \<leftarrow> Some (log @ [(Verb, verb)]);
         if \<not> verb then do {
           (noun, r) \<leftarrow> removeEndings r (RV r) [suffixNoun];
           Some (log @ [(Noun, noun)], r)
         } else Some (log, r)
       } else Some (log, r)
     } else Some (log, r)
   }"

definition one_branch :: "(ending \<times> bool) list \<Rightarrow> bool" where
  "one_branch log =
     (log = [(PerfectiveGerund, True)]
        \<or> (\<exists>x. log = [(PerfectiveGerund, False), (Reflexive, x), (Participle, True)])
        \<or> (\<exists>x. log = [(PerfectiveGerund, False), (Reflexive, x), (Participle, False),
                         (Adjective, True)])
        \<or> (\<exists>x. log = [(PerfectiveGerund, False), (Reflexive, x), (Participle, False),
                         (Adjective, False), (Verb, True)])
        \<or> (\<exists>x y. log = [(PerfectiveGerund, False), (Reflexive, x), (Participle, False),
                           (Adjective, False), (Verb, False), (Noun, y)]))"

text \<open>
  The fields of a string that was joined with single spaces, as \<^verbatim>\<open>strings.Split(s, " ")\<close>
  returns them.
\<close>

fun Split_from :: "gostring \<Rightarrow> gostring \<Rightarrow> gostring list" where
  "Split_from cur [] = [cur]"
| "Split_from cur (c # cs) =
     (if c = 0x20 then cur # Split_from [] cs else Split_from (cur @ [c]) cs)"

definition space_fields :: "gostring \<Rightarrow> gostring list" where
  "space_fields s = Split_from [] s"

section \<open>UTF-8: decoding undoes encoding\<close>

declare DecodeRune.simps [simp del]
declare findRegions_loop.simps [simp del]

lemma unat_byte_of_nat: "n < 256 \<Longrightarrow> unat (of_nat n :: byte) = n"
  by (simp add: unat_of_nat)


lemma valid_RuneError: "valid_rune RuneError"
  by (simp add: valid_rune_def RuneError_def)

lemma EncodeRune_invalid: "\<not> valid_rune r \<Longrightarrow> EncodeRune r = EncodeRune RuneError"
  by (simp add: EncodeRune_def valid_RuneError)

lemma EncodeRune_1: "r < 0x80 \<Longrightarrow> EncodeRune r = [of_nat r]"
  by (simp add: EncodeRune_def valid_rune_def)

lemma EncodeRune_2: "0x80 \<le> r \<Longrightarrow> r < 0x800 \<Longrightarrow>
  EncodeRune r = [of_nat (0xC0 + r div 64), of_nat (0x80 + r mod 64)]"
  by (simp add: EncodeRune_def valid_rune_def del: of_nat_add)

lemma EncodeRune_3: "valid_rune r \<Longrightarrow> 0x800 \<le> r \<Longrightarrow> r < 0x10000 \<Longrightarrow>
  EncodeRune r = [of_nat (0xE0 + r div 4096), of_nat (0x80 + (r div 64) mod 64), of_nat (0x80 + r mod 64)]"
  by (simp add: EncodeRune_def del: of_nat_add)

lemma EncodeRune_4: "valid_rune r \<Longrightarrow> 0x10000 \<le> r \<Longrightarrow>
  EncodeRune r = [of_nat (0xF0 + r div 262144), of_nat (0x80 + (r div 4096) mod 64),
         of_nat (0x80 + (r div 64) mod 64), of_nat (0x80 + r mod 64)]"
  by (simp add: EncodeRune_def del: of_nat_add)

lemma DecodeRune_Encode_1: "r < 0x80 \<Longrightarrow> DecodeRune (EncodeRune r @ bs) = (r, 1)"
  by (simp add: EncodeRune_1 unat_byte_of_nat DecodeRune.simps)

lemma DecodeRune_Encode_2:
  assumes "0x80 \<le> r" "r < 0x800"
  shows "DecodeRune (EncodeRune r @ bs) = (r, 2)"
proof -
  have a: "0xC0 + r div 64 < 256" "0x80 + r mod 64 < 256" using assms by auto
  have b: "0xC2 \<le> 0xC0 + r div 64" "0xC0 + r div 64 \<le> 0xDF" using assms by auto
  have c: "(0xC0 + r div 64 - 0xC0) * 64 + (0x80 + r mod 64 - 0x80) = r" by simp
  show ?thesis
    using b c
    by (simp add: EncodeRune_2 assms unat_byte_of_nat a is_cont_def DecodeRune.simps del: of_nat_add)
qed


lemma comb64: "(a::nat) * (64 * k) + b * k = (a * 64 + b) * k"
  by (simp add: algebra_simps)

lemma split_4096: "(r::nat) div 4096 * 4096 + r div 64 mod 64 * 64 + r mod 64 = r"
proof -
  have d: "r div 4096 = r div 64 div 64" by (simp add: div_mult2_eq)
  have "r div 64 div 64 * (64 * 64) + r div 64 mod 64 * 64 = (r div 64 div 64 * 64 + r div 64 mod 64) * 64"
    by (rule comb64)
  also have "\<dots> = r div 64 * 64" by (simp only: div_mult_mod_eq)
  finally show ?thesis by (simp add: d)
qed

lemma split_262144: "(r::nat) div 262144 * 262144 + r div 4096 mod 64 * 4096 + r div 64 mod 64 * 64 + r mod 64 = r"
proof -
  have d: "r div 262144 = r div 4096 div 64" by (simp add: div_mult2_eq)
  have "r div 4096 div 64 * (64 * 4096) + r div 4096 mod 64 * 4096 = (r div 4096 div 64 * 64 + r div 4096 mod 64) * 4096"
    by (rule comb64)
  also have "\<dots> = r div 4096 * 4096" by (simp only: div_mult_mod_eq)
  finally have "r div 262144 * 262144 + r div 4096 mod 64 * 4096 = r div 4096 * 4096"
    by (simp add: d)
  then have "r div 262144 * 262144 + r div 4096 mod 64 * 4096 + r div 64 mod 64 * 64 + r mod 64
     = r div 4096 * 4096 + r div 64 mod 64 * 64 + r mod 64" by simp
  then show ?thesis by (simp only: split_4096)
qed

lemma second_ED: "(r::nat) < 55296 \<Longrightarrow> r div 4096 = 13 \<Longrightarrow> r div 64 mod 64 \<le> 31"
  using split_4096 [of r] by simp
lemma second_E0: "2048 \<le> (r::nat) \<Longrightarrow> r div 4096 = 0 \<Longrightarrow> 32 \<le> r div 64 mod 64"
  using split_4096 [of r] by simp
lemma second_F0: "65536 \<le> (r::nat) \<Longrightarrow> r div 262144 = 0 \<Longrightarrow> 16 \<le> r div 4096 mod 64"
  using split_262144 [of r] by simp
lemma second_F4: "(r::nat) \<le> 1114111 \<Longrightarrow> r div 262144 = 4 \<Longrightarrow> r div 4096 mod 64 \<le> 15"
  using split_262144 [of r] by simp

lemma DecodeRune_Encode_3:
  assumes "valid_rune r" "0x800 \<le> r" "r < 0x10000"
  shows "DecodeRune (EncodeRune r @ bs) = (r, 3)"
proof -
  let ?b0 = "0xE0 + r div 4096" and ?b1 = "0x80 + (r div 64) mod 64" and ?b2 = "0x80 + r mod 64"
  have a: "?b0 < 256" "?b1 < 256" "?b2 < 256" using assms by auto
  have b: "0xE0 \<le> ?b0" "?b0 \<le> 0xEF" "\<not> ?b0 < 0x80" "\<not> ?b0 \<le> 0xDF" using assms by auto
  have lo: "second_lo ?b0 \<le> ?b1"
    using assms second_E0 [of r] by (auto simp: second_lo_def)
  have hi: "?b1 \<le> second_hi ?b0"
    using assms second_ED [of r] by (auto simp: second_hi_def valid_rune_def)
  have c: "(?b0 - 0xE0) * 4096 + (?b1 - 0x80) * 64 + (?b2 - 0x80) = r"
    using split_4096 [of r] by simp
  have d: "is_cont ?b2" by (simp add: is_cont_def)
  show ?thesis
    unfolding EncodeRune_3 [OF assms]
    using a b lo hi c d by (simp add: unat_byte_of_nat DecodeRune.simps del: of_nat_add)
qed

lemma DecodeRune_Encode_4:
  assumes "valid_rune r" "0x10000 \<le> r"
  shows "DecodeRune (EncodeRune r @ bs) = (r, 4)"
proof -
  let ?b0 = "0xF0 + r div 262144" and ?b1 = "0x80 + (r div 4096) mod 64"
    and ?b2 = "0x80 + (r div 64) mod 64" and ?b3 = "0x80 + r mod 64"
  have r: "r \<le> 0x10FFFF" using assms by (simp add: valid_rune_def)
  then have q: "r div 262144 \<le> 4" by simp
  have a: "?b0 < 256" "?b1 < 256" "?b2 < 256" "?b3 < 256" using q by auto
  have b: "0xF0 \<le> ?b0" "?b0 \<le> 0xF4" "\<not> ?b0 < 0x80" "\<not> ?b0 \<le> 0xDF" "\<not> ?b0 \<le> 0xEF"
    using q by auto
  have lo: "second_lo ?b0 \<le> ?b1"
    using assms second_F0 [of r] by (auto simp: second_lo_def)
  have hi: "?b1 \<le> second_hi ?b0"
    using r second_F4 [of r] by (auto simp: second_hi_def)
  have c: "(?b0 - 0xF0) * 262144 + (?b1 - 0x80) * 4096 + (?b2 - 0x80) * 64 + (?b3 - 0x80) = r"
    using split_262144 [of r] by simp
  have d: "is_cont ?b2" "is_cont ?b3" by (simp_all add: is_cont_def)
  show ?thesis
    unfolding EncodeRune_4 [OF assms]
    using a b lo hi c d by (simp add: unat_byte_of_nat DecodeRune.simps del: of_nat_add)
qed

lemma length_EncodeRune:
  "valid_rune r \<Longrightarrow> length (EncodeRune r) =
     (if r < 0x80 then 1 else if r < 0x800 then 2 else if r < 0x10000 then 3 else 4)"
  by (simp add: EncodeRune_def)

lemma DecodeRune_EncodeRune:
  assumes "valid_rune r"
  shows "DecodeRune (EncodeRune r @ bs) = (r, length (EncodeRune r))"
proof -
  consider "r < 0x80" | "0x80 \<le> r" "r < 0x800" | "0x800 \<le> r" "r < 0x10000" | "0x10000 \<le> r"
    by linarith
  then show ?thesis
  proof cases
    case 1
    then show ?thesis using assms by (simp add: DecodeRune_Encode_1 length_EncodeRune)
  next
    case 2
    then show ?thesis using assms by (simp add: DecodeRune_Encode_2 length_EncodeRune)
  next
    case 3
    then show ?thesis using assms by (simp add: DecodeRune_Encode_3 length_EncodeRune)
  next
    case 4
    then show ?thesis using assms by (simp add: DecodeRune_Encode_4 length_EncodeRune)
  qed
qed



lemma mod_64_le: "(x::nat) mod 64 \<le> 63"
  using mod_less_divisor [of 64 x] by simp

lemma EncodeRune_shape_valid:
  assumes "valid_rune r"
  shows "\<exists>c cs. EncodeRune r = c # cs \<and> \<not> is_cont (unat c) \<and> list_all (\<lambda>b. is_cont (unat b)) cs"
proof -
  consider "r < 0x80" | "0x80 \<le> r" "r < 0x800" | "0x800 \<le> r" "r < 0x10000" | "0x10000 \<le> r"
    by linarith
  then show ?thesis
  proof cases
    case 1
    then show ?thesis by (simp add: EncodeRune_1 unat_byte_of_nat is_cont_def)
  next
    case 2
    then have "0xC0 + r div 64 < 256" "0x80 + r mod 64 < 256" by auto
    then show ?thesis using 2
      by (simp add: EncodeRune_2 unat_byte_of_nat is_cont_def mod_64_le del: of_nat_add)
  next
    case 3
    then have "0xE0 + r div 4096 < 256" "0x80 + r div 64 mod 64 < 256" "0x80 + r mod 64 < 256"
      by auto
    then show ?thesis using 3 assms
      by (simp add: EncodeRune_3 unat_byte_of_nat is_cont_def mod_64_le del: of_nat_add)
  next
    case 4
    have "r \<le> 0x10FFFF" using assms 4 by (simp add: valid_rune_def)
    then have "r div 262144 \<le> 4" by simp
    then have "0xF0 + r div 262144 < 256" "0x80 + r div 4096 mod 64 < 256"
      "0x80 + r div 64 mod 64 < 256" "0x80 + r mod 64 < 256"
      by auto
    then show ?thesis using 4 assms
      by (simp add: EncodeRune_4 unat_byte_of_nat is_cont_def mod_64_le del: of_nat_add)
  qed
qed

lemma EncodeRune_shape:
  "\<exists>c cs. EncodeRune r = c # cs \<and> \<not> is_cont (unat c) \<and> list_all (\<lambda>b. is_cont (unat b)) cs"
proof (cases "valid_rune r")
  case True
  then show ?thesis by (rule EncodeRune_shape_valid)
next
  case False
  then show ?thesis
    using EncodeRune_shape_valid [OF valid_RuneError] by (simp add: EncodeRune_invalid)
qed

lemma EncodeRune_not_Nil: "EncodeRune r \<noteq> []"
  using EncodeRune_shape [of r] by auto

lemma string_of_runes_Nil [simp]: "string_of_runes [] = []"
  by (simp add: string_of_runes_def)

lemma string_of_runes_Cons: "string_of_runes (r # rs) = EncodeRune r @ string_of_runes rs"
  by (simp add: string_of_runes_def)

lemma string_of_runes_append:
  "string_of_runes (xs @ ys) = string_of_runes xs @ string_of_runes ys"
  by (simp add: string_of_runes_def)

lemma string_of_runes_eq_Nil: "(string_of_runes rs = []) = (rs = [])"
  by (cases rs) (simp_all add: string_of_runes_Cons EncodeRune_not_Nil)

lemma runes_of_string_encoded:
  assumes "valid_runes rs"
  shows "runes_of_string (string_of_runes rs @ bs) = rs @ runes_of_string bs"
  using assms
proof (induction rs)
  case Nil
  then show ?case by simp
next
  case (Cons r rs)
  then have v: "valid_rune r" and vs: "valid_runes rs" by (simp_all add: valid_runes_def)
  obtain c cs where e: "EncodeRune r = c # cs"
    using EncodeRune_not_Nil [of r] by (cases "EncodeRune r") auto
  have d: "DecodeRune (c # cs @ string_of_runes rs @ bs) = (r, Suc (length cs))"
    using DecodeRune_EncodeRune [OF v, of "string_of_runes rs @ bs"] by (simp add: e)
  have "runes_of_string (c # cs @ string_of_runes rs @ bs)
          = r # runes_of_string (string_of_runes rs @ bs)"
    by (simp only: runes_of_string.simps d) simp
  then show ?case using Cons.IH [OF vs] by (simp add: string_of_runes_Cons e)
qed

lemma runes_of_string_of_runes: "valid_runes rs \<Longrightarrow> runes_of_string (string_of_runes rs) = rs"
  using runes_of_string_encoded [of rs "[]"] by simp

lemma string_of_runes_inject:
  "valid_runes xs \<Longrightarrow> valid_runes ys \<Longrightarrow> (string_of_runes xs = string_of_runes ys) = (xs = ys)"
  by (metis runes_of_string_of_runes)


lemma valid_rune_3:
  assumes "0xE0 \<le> b0" "b0 \<le> 0xEF" "second_lo b0 \<le> b1" "b1 \<le> second_hi b0" "is_cont b2"
  shows "valid_rune ((b0 - 0xE0) * 4096 + (b1 - 0x80) * 64 + (b2 - 0x80))"
proof -
  let ?v = "(b0 - 0xE0) * 4096 + (b1 - 0x80) * 64 + (b2 - 0x80)"
  have b1: "b1 \<le> 0xBF" using assms(4) by (simp add: second_hi_def split: if_splits)
  have b2: "b2 \<le> 0xBF" using assms(5) by (simp add: is_cont_def)
  consider "b0 \<le> 0xEC" | "b0 = 0xED" | "0xEE \<le> b0" by linarith
  then show ?thesis
  proof cases
    case 1
    then have "?v < 0xD800" using b1 b2 by arith
    then show ?thesis by (simp add: valid_rune_def)
  next
    case 2
    then have "b1 \<le> 0x9F" using assms(4) by (simp add: second_hi_def)
    then have "?v < 0xD800" using 2 b2 by arith
    then show ?thesis by (simp add: valid_rune_def)
  next
    case 3
    then have "0xE000 \<le> ?v" "?v \<le> 0x10FFFF" using assms(2) b1 b2 by arith+
    then show ?thesis by (simp add: valid_rune_def)
  qed
qed

lemma valid_rune_4:
  assumes "0xF0 \<le> b0" "b0 \<le> 0xF4" "second_lo b0 \<le> b1" "b1 \<le> second_hi b0"
    "is_cont b2" "is_cont b3"
  shows "valid_rune ((b0 - 0xF0) * 262144 + (b1 - 0x80) * 4096 + (b2 - 0x80) * 64 + (b3 - 0x80))"
proof -
  let ?v = "(b0 - 0xF0) * 262144 + (b1 - 0x80) * 4096 + (b2 - 0x80) * 64 + (b3 - 0x80)"
  have b1: "b1 \<le> 0xBF" using assms(4) by (simp add: second_hi_def split: if_splits)
  have b2: "b2 \<le> 0xBF" using assms(5) by (simp add: is_cont_def)
  have b3: "b3 \<le> 0xBF" using assms(6) by (simp add: is_cont_def)
  consider "b0 = 0xF0" | "0xF1 \<le> b0" "b0 \<le> 0xF3" | "b0 = 0xF4" using assms(1,2) by linarith
  then have "0xE000 \<le> ?v \<and> ?v \<le> 0x10FFFF"
  proof cases
    case 1
    then have "0x90 \<le> b1" using assms(3) by (simp add: second_lo_def)
    then show ?thesis using 1 b1 b2 b3 by arith
  next
    case 2
    then show ?thesis using b1 b2 b3 by arith
  next
    case 3
    then have "b1 \<le> 0x8F" using assms(4) by (simp add: second_hi_def)
    then show ?thesis using 3 b2 b3 by arith
  qed
  then show ?thesis by (simp add: valid_rune_def)
qed

lemma valid_rune_1: "b0 < 0x80 \<Longrightarrow> valid_rune b0"
  by (simp add: valid_rune_def)

lemma valid_rune_2:
  assumes "b0 \<le> 0xDF" "is_cont b1"
  shows "valid_rune ((b0 - 0xC0) * 64 + (b1 - 0x80))"
proof -
  have "b1 \<le> 0xBF" using assms(2) by (simp add: is_cont_def)
  then have "(b0 - 0xC0) * 64 + (b1 - 0x80) < 0xD800" using assms(1) by arith
  then show ?thesis by (simp add: valid_rune_def)
qed

lemma valid_DecodeRune: "valid_rune (fst (DecodeRune s))"
proof (cases s)
  case Nil
  then show ?thesis by (simp add: valid_RuneError DecodeRune.simps)
next
  case (Cons c0 cs)
  show ?thesis
    unfolding Cons DecodeRune.simps Let_def
    by (auto simp: valid_RuneError valid_rune_1 valid_rune_2 valid_rune_3 valid_rune_4
        split: list.splits)
qed

lemma valid_runes_of_string: "valid_runes (runes_of_string s)"
proof (induction s rule: runes_of_string.induct)
  case 1
  then show ?case by (simp add: valid_runes_def)
next
  case (2 c cs)
  obtain r n where d: "DecodeRune (c # cs) = (r, n)" by (cases "DecodeRune (c # cs)")
  have "valid_rune r" using valid_DecodeRune [of "c # cs"] by (simp add: d)
  moreover have "valid_runes (runes_of_string (drop (n - 1) cs))"
    using "2.IH" [OF d [symmetric]] by simp
  ultimately show ?case by (simp add: d valid_runes_def)
qed


lemma valid_runes_Nil [simp]: "valid_runes []"
  by (simp add: valid_runes_def)

lemma valid_runes_Cons [simp]: "valid_runes (r # rs) = (valid_rune r \<and> valid_runes rs)"
  by (simp add: valid_runes_def)

lemma valid_runes_append [simp]: "valid_runes (xs @ ys) = (valid_runes xs \<and> valid_runes ys)"
  by (simp add: valid_runes_def)

lemma valid_runes_take: "valid_runes xs \<Longrightarrow> valid_runes (take n xs)"
  by (metis append_take_drop_id valid_runes_append)

lemma valid_runes_drop: "valid_runes xs \<Longrightarrow> valid_runes (drop n xs)"
  by (metis append_take_drop_id valid_runes_append)

text \<open>A string that ends with an encoded, non-empty rune sequence ends with it on a rune boundary.\<close>

lemma string_of_runes_aligned:
  assumes "string_of_runes b = ps @ string_of_runes a" "a \<noteq> []" "valid_runes a" "valid_runes b"
  shows "\<exists>p. b = p @ a \<and> ps = string_of_runes p"
  using assms
proof (induction b arbitrary: ps)
  case Nil
  then show ?case by (simp add: string_of_runes_eq_Nil)
next
  case (Cons r b)
  obtain a0 as where a: "a = a0 # as" using Cons.prems(2) by (cases a) auto
  obtain c cs where e: "EncodeRune r = c # cs" and cont: "list_all (\<lambda>x. is_cont (unat x)) cs"
    using EncodeRune_shape [of r] by auto
  obtain d ds where e0: "EncodeRune a0 = d # ds" and lead: "\<not> is_cont (unat d)"
    using EncodeRune_shape [of a0] by auto
  have eq: "EncodeRune r @ string_of_runes b = ps @ string_of_runes a"
    using Cons.prems(1) by (simp add: string_of_runes_Cons)
  then consider us where "EncodeRune r = ps @ us" "us @ string_of_runes b = string_of_runes a"
    | us where "EncodeRune r @ us = ps" "string_of_runes b = us @ string_of_runes a"
    by (auto simp: append_eq_append_conv2)
  then show ?case
  proof cases
    case 1
    show ?thesis
    proof (cases ps)
      case Nil
      then have "string_of_runes (r # b) = string_of_runes a"
        using Cons.prems(1) by simp
      then have "r # b = a"
        using Cons.prems(3,4) by (simp only: string_of_runes_inject)
      then show ?thesis using Nil by simp
    next
      case (Cons p0 ps')
      then have cs: "cs = ps' @ us" using 1(1) e by simp
      show ?thesis
      proof (cases us)
        case Nil
        then have "string_of_runes b = string_of_runes a" using 1(2) by simp
        then have "b = a"
          using Cons.prems(3,4) by (simp add: string_of_runes_inject)
        then have "r # b = [r] @ a \<and> ps = string_of_runes [r]"
          using 1(1) Nil by (simp add: string_of_runes_Cons)
        then show ?thesis by blast
      next
        case (Cons u us')
        have "is_cont (unat u)" using cont cs Cons by simp
        moreover have "u = d" using 1(2) Cons a e0 by (simp add: string_of_runes_Cons)
        ultimately show ?thesis using lead by simp
      qed
    qed
  next
    case 2
    have "\<exists>p. b = p @ a \<and> us = string_of_runes p"
      using Cons.IH [OF 2(2) Cons.prems(2) Cons.prems(3)] Cons.prems(4) by simp
    then obtain p where "b = p @ a" "us = string_of_runes p" by auto
    then have "r # b = (r # p) @ a \<and> ps = string_of_runes (r # p)"
      using 2(1) by (simp add: string_of_runes_Cons)
    then show ?thesis by blast
  qed
qed

lemma suffix_string_of_runes:
  assumes "valid_runes a" "valid_runes b"
  shows "suffix (string_of_runes a) (string_of_runes b) = suffix a b"
proof (cases "a = []")
  case True
  then show ?thesis by simp
next
  case False
  show ?thesis
  proof
    assume "suffix (string_of_runes a) (string_of_runes b)"
    then obtain ps where "string_of_runes b = ps @ string_of_runes a"
      by (auto simp: suffix_def)
    from string_of_runes_aligned [OF this False assms] show "suffix a b"
      by (auto simp: suffix_def)
  next
    assume "suffix a b"
    then show "suffix (string_of_runes a) (string_of_runes b)"
      by (auto simp: suffix_def string_of_runes_append)
  qed
qed

lemma HasSuffix_suffix: "HasSuffix s t = suffix t s"
proof
  assume "HasSuffix s t"
  then have "s = take (length s - length t) s @ t"
    by (metis HasSuffix_def append_take_drop_id)
  then show "suffix t s" by (metis suffixI)
next
  assume "suffix t s"
  then obtain zs where "s = zs @ t" by (auto simp: suffix_def)
  then show "HasSuffix s t" by (simp add: HasSuffix_def)
qed

lemma TrimSuffix_runes:
  assumes "valid_runes w" "valid_runes s"
  shows "TrimSuffix (string_of_runes w) (string_of_runes s)
           = string_of_runes (if suffix s w then take (length w - length s) w else w)"
proof (cases "suffix s w")
  case True
  then obtain p where p: "w = p @ s" by (auto simp: suffix_def)
  have t: "take (length w - length s) w = p" using p by simp
  have "suffix (string_of_runes s) (string_of_runes w)"
    using True assms by (simp add: suffix_string_of_runes)
  then have "TrimSuffix (string_of_runes w) (string_of_runes s)
      = take (length (string_of_runes w) - length (string_of_runes s)) (string_of_runes w)"
    by (simp add: TrimSuffix_def HasSuffix_suffix)
  also have "\<dots> = string_of_runes p"
    by (simp add: p string_of_runes_append)
  finally show ?thesis using True t by simp
next
  case False
  then have "\<not> suffix (string_of_runes s) (string_of_runes w)"
    using assms by (simp add: suffix_string_of_runes)
  then show ?thesis using False by (simp add: TrimSuffix_def HasSuffix_suffix)
qed

section \<open>Suffix removal on runes\<close>


lemma valid_cyr_a: "valid_rune cyr_a"
  by (simp add: valid_rune_def)

lemma valid_cyr_ya: "valid_rune cyr_ya"
  by (simp add: valid_rune_def)

lemma string_of_runes_neq:
  "valid_runes xs \<Longrightarrow> valid_runes ys \<Longrightarrow> (string_of_runes xs \<noteq> string_of_runes ys) = (xs \<noteq> ys)"
  by (simp add: string_of_runes_inject)

lemma suffix_length_less: "suffix s w \<Longrightarrow> s \<noteq> [] \<Longrightarrow> \<not> length w \<le> length w - length s"
proof
  assume a: "suffix s w" "s \<noteq> []" "length w \<le> length w - length s"
  have "length s \<le> length w" using a(1) by (rule suffix_length_le)
  then show False using a(2,3) by (cases s) auto
qed

lemma take_suffix_neq: "suffix s w \<Longrightarrow> s \<noteq> [] \<Longrightarrow> take (length w - length s) w \<noteq> w"
  by (simp add: suffix_length_less)

lemma trimFirstSuffix_plain:
  assumes "valid_runes w" "list_all valid_runes S"
  shows "trimFirstSuffix (string_of_runes w) (map string_of_runes S) False
    = string_of_runes (case find (\<lambda>s. s \<noteq> [] \<and> suffix s w) S of
                         None \<Rightarrow> w | Some s \<Rightarrow> take (length w - length s) w)"
  using assms(2)
proof (induction S)
  case Nil
  then show ?case by simp
next
  case (Cons s S)
  then have vs: "valid_runes s" and vS: "list_all valid_runes S" by simp_all
  have vt: "valid_runes (take (length w - length s) w)"
    using assms(1) by (rule valid_runes_take)
  show ?case
  proof (cases "s \<noteq> [] \<and> suffix s w")
    case True
    then show ?thesis
      using assms(1) vs vt
      by (simp add: TrimSuffix_runes string_of_runes_inject suffix_length_less)
  next
    case False
    then have "TrimSuffix (string_of_runes w) (string_of_runes s) = string_of_runes w"
      using assms(1) vs by (auto simp: TrimSuffix_runes)
    then show ?thesis using False Cons.IH [OF vS] by auto
  qed
qed

lemma trimFirstSuffix_AYA:
  assumes "valid_runes w" "list_all valid_runes S"
  shows "trimFirstSuffix (string_of_runes w) (map string_of_runes S) True
    = string_of_runes
        (case find (\<lambda>s. s \<noteq> [] \<and> (suffix (cyr_a # s) w \<or> suffix (cyr_ya # s) w)) S of
           None \<Rightarrow> w | Some s \<Rightarrow> take (length w - length s) w)"
  using assms(2)
proof (induction S)
  case Nil
  then show ?case by simp
next
  case (Cons s S)
  then have vs: "valid_runes s" and vS: "list_all valid_runes S" by simp_all
  have vt: "valid_runes (take (length w - length s) w)"
    using assms(1) by (rule valid_runes_take)
  have pre: "(HasSuffix (string_of_runes w) (string_of_runes [cyr_a] @ string_of_runes s)
              \<or> HasSuffix (string_of_runes w) (string_of_runes [cyr_ya] @ string_of_runes s))
             = (suffix (cyr_a # s) w \<or> suffix (cyr_ya # s) w)"
    using assms(1) vs suffix_string_of_runes [of "cyr_a # s" w]
      suffix_string_of_runes [of "cyr_ya # s" w]
    by (simp add: HasSuffix_suffix string_of_runes_Cons valid_cyr_a valid_cyr_ya)
  show ?case
  proof (cases "suffix (cyr_a # s) w \<or> suffix (cyr_ya # s) w")
    case True
    then have sw: "suffix s w" by (auto dest: suffix_ConsD)
    show ?thesis
    proof (cases "s = []")
      case True
      then show ?thesis using Cons.IH [OF vS] by (simp add: TrimSuffix_def)
    next
      case False
      then show ?thesis
        using True sw assms(1) vs vt
        by (simp add: pre TrimSuffix_runes string_of_runes_inject suffix_length_less
            del: string_of_runes_Nil)
    qed
  next
    case False
    then show ?thesis using Cons.IH [OF vS] by (simp add: pre)
  qed
qed


lemma removeEndings_eq:
  assumes "0 \<le> region"
  shows "removeEndings r region (S # rest) =
    (let prefix' = take (nat region) (word r);
         word' = string_of_runes (drop (nat region) (word r)) in
     if length rest = 1 \<and> trimFirstSuffix word' S True \<noteq> word' then
       Some (True, r\<lparr>word := runes_of_string
                (string_of_runes prefix' @ trimFirstSuffix word' S True)\<rparr>)
     else
       (let S' = (if length rest = 1 then hd rest else S) in
        if trimFirstSuffix word' S' False \<noteq> word' then
          Some (True, r\<lparr>word := runes_of_string
                   (string_of_runes prefix' @ trimFirstSuffix word' S' False)\<rparr>)
        else Some (False, r)))"
proof -
  let ?n = "if region > int (length (word r)) then int (length (word r)) else region"
  have n: "\<not> ?n < 0" using assms by simp
  have big: "int (length (word r)) < region \<Longrightarrow> length (word r) \<le> nat region" by linarith
  then have t: "take (nat ?n) (word r) = take (nat region) (word r)" by simp
  have d: "drop (length (take (nat region) (word r))) (word r) = drop (nat region) (word r)"
    by (simp add: min_def)
  have h: "length rest = Suc 0 \<Longrightarrow> rest ! 0 = hd rest"
    by (cases rest) simp_all
  show ?thesis
    unfolding removeEndings_def Let_def
    by (simp only: n t d if_False list.case) (auto simp: h)
qed

lemma take_strip:
  assumes "suffix s (drop n w)"
  shows "take n w @ take (length (drop n w) - length s) (drop n w) = take (length w - length s) w"
proof -
  obtain q where q: "drop n w = q @ s" using assms by (auto simp: suffix_def)
  have w: "w = take n w @ q @ s" by (metis append_take_drop_id q)
  have "take (length w - length s) w = take (length (take n w @ q)) (take n w @ q @ s)"
    by (metis w add_diff_cancel_right' append.assoc length_append)
  also have "\<dots> = take n w @ q" by (metis append.assoc append_eq_conv_conj)
  finally show ?thesis by (simp add: q)
qed

lemma removeEndings_single:
  assumes "valid_runes (word r)" "list_all valid_runes S" "0 \<le> region" "length rest \<noteq> 1"
  shows "removeEndings r region (map string_of_runes S # rest) =
    Some (case find (\<lambda>s. s \<noteq> [] \<and> suffix s (drop (nat region) (word r))) S of
            None \<Rightarrow> (False, r)
          | Some s \<Rightarrow> (True, r\<lparr>word := take (length (word r) - length s) (word r)\<rparr>))"
proof -
  define tail where "tail = drop (nat region) (word r)"
  have vt: "valid_runes tail" unfolding tail_def using assms(1) by (rule valid_runes_drop)
  have vp: "valid_runes (take (nat region) (word r))" using assms(1) by (rule valid_runes_take)
  note T = trimFirstSuffix_plain [OF vt assms(2)]
  show ?thesis
  proof (cases "find (\<lambda>s. s \<noteq> [] \<and> suffix s tail) S")
    case None
    then show ?thesis
      using assms(3,4) T by (simp add: removeEndings_eq tail_def [symmetric])
  next
    case (Some s)
    then have s: "s \<noteq> []" "suffix s tail" by (auto simp: find_Some_iff)
    have vx: "valid_runes (take (length tail - length s) tail)" using vt by (rule valid_runes_take)
    have ne: "string_of_runes (take (length tail - length s) tail) \<noteq> string_of_runes tail"
      using s vx vt by (simp add: string_of_runes_inject suffix_length_less)
    have w: "runes_of_string (string_of_runes (take (nat region) (word r))
                @ string_of_runes (take (length tail - length s) tail))
              = take (length (word r) - length s) (word r)"
      using valid_runes_take [OF assms(1)] take_strip [of s "nat region" "word r"] s(2)
      by (simp add: string_of_runes_append [symmetric] runes_of_string_of_runes tail_def)
    show ?thesis
      using assms(3,4) T Some ne w by (simp add: removeEndings_eq tail_def [symmetric])
  qed
qed


lemma removeEndings_double:
  assumes "valid_runes (word r)" "list_all valid_runes S0" "list_all valid_runes S1" "0 \<le> region"
  shows "removeEndings r region [map string_of_runes S0, map string_of_runes S1] =
    Some (case find (\<lambda>s. s \<noteq> [] \<and> (suffix (cyr_a # s) (drop (nat region) (word r))
                                    \<or> suffix (cyr_ya # s) (drop (nat region) (word r)))) S0 of
            Some s \<Rightarrow> (True, r\<lparr>word := take (length (word r) - length s) (word r)\<rparr>)
          | None \<Rightarrow>
              (case find (\<lambda>s. s \<noteq> [] \<and> suffix s (drop (nat region) (word r))) S1 of
                 None \<Rightarrow> (False, r)
               | Some s \<Rightarrow> (True, r\<lparr>word := take (length (word r) - length s) (word r)\<rparr>)))"
proof -
  define tail where "tail = drop (nat region) (word r)"
  have vt: "valid_runes tail" unfolding tail_def using assms(1) by (rule valid_runes_drop)
  note T0 = trimFirstSuffix_AYA [OF vt assms(2)]
  note T1 = trimFirstSuffix_plain [OF vt assms(3)]
  have strip: "runes_of_string (string_of_runes (take (nat region) (word r))
                  @ string_of_runes (take (length tail - length s) tail))
                = take (length (word r) - length s) (word r)
               \<and> string_of_runes (take (length tail - length s) tail) \<noteq> string_of_runes tail"
    if s: "s \<noteq> []" "suffix s tail" for s
  proof -
    have vx: "valid_runes (take (length tail - length s) tail)" using vt by (rule valid_runes_take)
    have "string_of_runes (take (length tail - length s) tail) \<noteq> string_of_runes tail"
      using s vx vt by (simp add: string_of_runes_inject suffix_length_less)
    moreover have "runes_of_string (string_of_runes (take (nat region) (word r))
                @ string_of_runes (take (length tail - length s) tail))
              = take (length (word r) - length s) (word r)"
      using valid_runes_take [OF assms(1)] take_strip [of s "nat region" "word r"] s(2)
      by (simp add: string_of_runes_append [symmetric] runes_of_string_of_runes tail_def)
    ultimately show ?thesis by simp
  qed
  show ?thesis
  proof (cases "find (\<lambda>s. s \<noteq> [] \<and> (suffix (cyr_a # s) tail \<or> suffix (cyr_ya # s) tail)) S0")
    case (Some s)
    then have "s \<noteq> []" "suffix s tail" by (auto simp: find_Some_iff dest: suffix_ConsD)
    from strip [OF this] show ?thesis
      using assms(4) T0 Some by (simp add: removeEndings_eq tail_def [symmetric])
  next
    case None
    note N0 = None
    show ?thesis
    proof (cases "find (\<lambda>s. s \<noteq> [] \<and> suffix s tail) S1")
      case None
      then show ?thesis
        using assms(4) T0 T1 N0 by (simp add: removeEndings_eq tail_def [symmetric])
    next
      case (Some s)
      then have "s \<noteq> []" "suffix s tail" by (auto simp: find_Some_iff)
      from strip [OF this] show ?thesis
        using assms(4) T0 T1 N0 Some by (simp add: removeEndings_eq tail_def [symmetric])
    qed
  qed
qed

subsection \<open>Frame and totality of one removal, for arbitrary packs\<close>

lemma removeEndings_total:
  assumes "0 \<le> region" "packs \<noteq> []"
  shows "\<exists>b r'. removeEndings r region packs = Some (b, r')"
proof -
  obtain S rest where "packs = S # rest" using assms(2) by (cases packs) auto
  then show ?thesis
    using assms(1) by (auto simp: removeEndings_eq Let_def)
qed

lemma removeEndings_frame:
  assumes "removeEndings r region packs = Some (b, r')" "valid_runes (word r)"
  shows "take (min (nat region) (length (word r))) (word r') = take (nat region) (word r)
          \<and> RV r' = RV r \<and> R2 r' = R2 r"
proof -
  have reg: "0 \<le> region" using assms(1)
    by (auto simp: removeEndings_def Let_def split: if_splits)
  obtain S rest where p: "packs = S # rest" using assms(1)
    by (cases packs) (auto simp: removeEndings_def Let_def split: if_splits)
  have vp: "valid_runes (take (nat region) (word r))" using assms(2) by (rule valid_runes_take)
  have k: "take (min (nat region) (length (word r))) (take (nat region) (word r) @ xs)
             = take (nat region) (word r)" for xs
    by (simp add: min_def)
  have m: "take (min a (length w)) w = take a w" for a and w :: "rune list"
    by (simp add: min_def)
  show ?thesis
    using assms(1) unfolding p removeEndings_eq [OF reg] Let_def
    by (auto simp: runes_of_string_encoded [OF vp] k m split: if_splits)
qed

lemma kept_vowel:
  assumes "suffix (v # s) (drop n w)"
  shows "take (length w - length s) w \<noteq> [] \<and> last (take (length w - length s) w) = v"
proof -
  have "suffix (v # s) w"
    using assms suffix_drop suffix_order.trans by blast
  then obtain p where p: "w = p @ v # s" by (auto simp: suffix_def)
  have "take (length w - length s) w = p @ [v]" by (simp add: p)
  then show ?thesis by simp
qed

section \<open>The steps of the stemmer keep a prefix of the word\<close>

lemma trimmed_refl: "trimmed r r"
  by (simp add: trimmed_def)

lemma trimmed_trans: "trimmed r r' \<Longrightarrow> trimmed r' r'' \<Longrightarrow> trimmed r r''"
  by (auto simp: trimmed_def)

lemma trimmed_take: "trimmed r (r\<lparr>word := take k (word r)\<rparr>)"
  by (simp add: trimmed_def take_is_prefix)

lemma valid_runes_prefix: "prefix xs ys \<Longrightarrow> valid_runes ys \<Longrightarrow> valid_runes xs"
  by (auto simp: prefix_def)

lemma trimmed_valid: "trimmed r r' \<Longrightarrow> valid_runes (word r) \<Longrightarrow> valid_runes (word r')"
  by (auto simp: trimmed_def intro: valid_runes_prefix)

lemma removeEndings_trims_single:
  assumes "valid_runes (word r)" "0 \<le> region" "list_all valid_runes S"
  shows "\<exists>b r'. removeEndings r region [map string_of_runes S] = Some (b, r') \<and> trimmed r r'"
  unfolding removeEndings_single [OF assms(1,3,2), of "[]", simplified]
  by (auto simp: trimmed_refl trimmed_take split: option.split)

lemma removeEndings_trims_double:
  assumes "valid_runes (word r)" "0 \<le> region" "list_all valid_runes S0" "list_all valid_runes S1"
  shows "\<exists>b r'. removeEndings r region [map string_of_runes S0, map string_of_runes S1]
                   = Some (b, r') \<and> trimmed r r'"
  unfolding removeEndings_double [OF assms(1,3,4,2)]
  by (auto simp: trimmed_refl trimmed_take split: option.split)

subsection \<open>The tables are lists of encoded runes\<close>

lemma appendPrefix_encoded:
  "appendPrefix (map string_of_runes A) [map string_of_runes P]
     = map string_of_runes (appendPrefix A [P])"
  by (simp add: appendPrefix_def map_concat comp_def string_of_runes_append)

lemma valid_appendPrefix:
  "list_all valid_runes A \<Longrightarrow> list_all valid_runes P \<Longrightarrow> list_all valid_runes (appendPrefix A [P])"
  by (auto simp: appendPrefix_def list_all_iff)

lemma valid_suffixAdjective: "list_all valid_runes suffixAdjective_runes"
  by (simp add: suffixAdjective_runes_def valid_rune_def)

lemma valid_suffixNoun: "list_all valid_runes suffixNoun_runes"
  by (simp add: suffixNoun_runes_def valid_rune_def)

lemma valid_suffixReflexives: "list_all valid_runes suffixReflexives_runes"
  by (simp add: suffixReflexives_runes_def valid_rune_def)

lemma valid_suffixNN: "list_all valid_runes suffixNN_runes"
  by (simp add: suffixNN_runes_def valid_rune_def)

lemma valid_suffixI: "list_all valid_runes suffixI_runes"
  by (simp add: suffixI_runes_def valid_rune_def)

lemma valid_suffixSoftSign: "list_all valid_runes suffixSoftSign_runes"
  by (simp add: suffixSoftSign_runes_def valid_rune_def)

lemma valid_suffixSuperlative: "list_all valid_runes suffixSuperlative_runes"
  by (simp add: suffixSuperlative_runes_def valid_rune_def)

lemma valid_suffixDerivational: "list_all valid_runes suffixDerivational_runes"
  by (simp add: suffixDerivational_runes_def valid_rune_def)

lemma valid_suffixPerfectiveGerunds:
  "list_all valid_runes (suffixPerfectiveGerunds_runes ! 0)"
  "list_all valid_runes (suffixPerfectiveGerunds_runes ! 1)"
  by (simp_all add: suffixPerfectiveGerunds_runes_def valid_rune_def)

lemma valid_suffixVerb:
  "list_all valid_runes (suffixVerb_runes ! 0)"
  "list_all valid_runes (suffixVerb_runes ! 1)"
  by (simp_all add: suffixVerb_runes_def valid_rune_def)

lemma valid_participle:
  "list_all valid_runes participle1_runes"
  "list_all valid_runes participle2_runes"
  by (simp_all add: participle1_runes_def participle2_runes_def valid_rune_def)

lemma gerund_packs:
  "[suffixPerfectiveGerunds ! 0, suffixPerfectiveGerunds ! 1]
     = [map string_of_runes (suffixPerfectiveGerunds_runes ! 0),
        map string_of_runes (suffixPerfectiveGerunds_runes ! 1)]"
  by (simp add: suffixPerfectiveGerunds_def suffixPerfectiveGerunds_runes_def)

lemma verb_packs:
  "[suffixVerb ! 0, suffixVerb ! 1]
     = [map string_of_runes (suffixVerb_runes ! 0), map string_of_runes (suffixVerb_runes ! 1)]"
  by (simp add: suffixVerb_def suffixVerb_runes_def)

lemma participle_packs:
  "[suffixParticiple ! 0, suffixParticiple ! 1]
     = [map string_of_runes (appendPrefix suffixAdjective_runes [participle1_runes]),
        map string_of_runes (appendPrefix suffixAdjective_runes [participle2_runes])]"
  by (simp add: suffixParticiple_def suffixAdjective_def appendPrefix_encoded)

lemma regions_ok_trimmed: "regions_ok r \<Longrightarrow> trimmed r r' \<Longrightarrow> regions_ok r'"
  by (auto simp: regions_ok_def trimmed_def intro: valid_runes_prefix)

lemma index_in_range: "0 \<le> i \<Longrightarrow> i < int (length xs) \<Longrightarrow> index xs i = Some (xs ! nat i)"
  by (simp add: index_def)

lemma findRegions_loop_total:
  assumes "1 \<le> i" "0 \<le> RV r" "0 \<le> R2 r"
  shows "\<exists>r'. findRegions_loop r i state = Some r' \<and> word r' = word r \<and> 0 \<le> RV r' \<and> 0 \<le> R2 r'"
  using assms
proof (induction r i state rule: findRegions_loop.induct)
  case (1 r i state)
  show ?case
  proof (cases "i < int (length (word r))")
    case False
    then show ?thesis using "1.prems" by (simp add: findRegions_loop.simps)
  next
    case True
    have p: "index (word r) (i - 1) = Some (word r ! nat (i - 1))"
      using True "1.prems"(1) by (simp add: index_in_range)
    have c: "index (word r) i = Some (word r ! nat i)"
      using True "1.prems"(1) by (simp add: index_in_range)
    have i: "1 \<le> i + 1" using "1.prems"(1) by simp
    show ?thesis
      apply (subst findRegions_loop.simps)
      using "1.IH" [OF True refl p c refl refl] i "1.prems"(2,3) True p c
      apply (simp add: Let_def)
      done
  qed
qed


lemma valid_cyr_en: "valid_rune cyr_en"
  by (simp add: valid_rune_def)

lemma findRegions_total:
  "\<exists>r'. findRegions (r\<lparr>word := runes_of_string s, RV := 0, R2 := 0\<rparr>) = Some r'
         \<and> word r' = runes_of_string s \<and> regions_ok r'"
  using findRegions_loop_total [of 1 "r\<lparr>word := runes_of_string s, RV := 0, R2 := 0\<rparr>" 0]
  by (auto simp: findRegions_def regions_ok_def valid_runes_of_string)

lemma trims_RV_single:
  assumes "regions_ok r" "list_all valid_runes S"
  shows "\<exists>b r'. removeEndings r (RV r) [map string_of_runes S] = Some (b, r') \<and> trimmed r r'"
  using assms removeEndings_trims_single [of r "RV r" S] by (simp add: regions_ok_def)

lemma trims_R2_single:
  assumes "regions_ok r" "list_all valid_runes S"
  shows "\<exists>b r'. removeEndings r (R2 r) [map string_of_runes S] = Some (b, r') \<and> trimmed r r'"
  using assms removeEndings_trims_single [of r "R2 r" S] by (simp add: regions_ok_def)

lemma trims_RV_double:
  assumes "regions_ok r" "list_all valid_runes S0" "list_all valid_runes S1"
  shows "\<exists>b r'. removeEndings r (RV r) [map string_of_runes S0, map string_of_runes S1]
                  = Some (b, r') \<and> trimmed r r'"
  using assms removeEndings_trims_double [of r "RV r" S0 S1] by (simp add: regions_ok_def)

lemma Step1_trims:
  assumes "regions_ok r"
  shows "\<exists>r'. Step1 r = Some r' \<and> trimmed r r'"
proof -
  obtain g r1 where 1: "removeEndings r (RV r)
        [suffixPerfectiveGerunds ! 0, suffixPerfectiveGerunds ! 1] = Some (g, r1)" "trimmed r r1"
    using trims_RV_double [OF assms valid_suffixPerfectiveGerunds]
    unfolding gerund_packs by blast
  have ok1: "regions_ok r1" using assms 1(2) by (rule regions_ok_trimmed)
  obtain x r2 where 2: "removeEndings r1 (RV r1) [suffixReflexives] = Some (x, r2)" "trimmed r1 r2"
    using trims_RV_single [OF ok1 valid_suffixReflexives]
    unfolding suffixReflexives_def by blast
  have ok2: "regions_ok r2" using ok1 2(2) by (rule regions_ok_trimmed)
  obtain p r3 where 3: "removeEndings r2 (RV r2)
        [suffixParticiple ! 0, suffixParticiple ! 1] = Some (p, r3)" "trimmed r2 r3"
    using trims_RV_double [OF ok2 valid_appendPrefix [OF valid_suffixAdjective valid_participle(1)]
        valid_appendPrefix [OF valid_suffixAdjective valid_participle(2)]]
    unfolding participle_packs by blast
  have ok3: "regions_ok r3" using ok2 3(2) by (rule regions_ok_trimmed)
  obtain a r4 where 4: "removeEndings r3 (RV r3) [suffixAdjective] = Some (a, r4)" "trimmed r3 r4"
    using trims_RV_single [OF ok3 valid_suffixAdjective]
    unfolding suffixAdjective_def by blast
  have ok4: "regions_ok r4" using ok3 4(2) by (rule regions_ok_trimmed)
  obtain v r5 where 5: "removeEndings r4 (RV r4) [suffixVerb ! 0, suffixVerb ! 1] = Some (v, r5)"
      "trimmed r4 r5"
    using trims_RV_double [OF ok4 valid_suffixVerb]
    unfolding verb_packs by blast
  have ok5: "regions_ok r5" using ok4 5(2) by (rule regions_ok_trimmed)
  obtain n r6 where 6: "removeEndings r5 (RV r5) [suffixNoun] = Some (n, r6)" "trimmed r5 r6"
    using trims_RV_single [OF ok5 valid_suffixNoun]
    unfolding suffixNoun_def by blast
  have t3: "trimmed r r3" using 1(2) 2(2) 3(2) by (blast intro: trimmed_trans)
  have t4: "trimmed r r4" using t3 4(2) by (rule trimmed_trans)
  have t5: "trimmed r r5" using t4 5(2) by (rule trimmed_trans)
  have t6: "trimmed r r6" using t5 6(2) by (rule trimmed_trans)
  have "Step1 r = Some (if g then r1 else if p then r3 else if a then r4 else if v then r5 else r6)"
    by (simp add: Step1_def 1(1) 2(1) 3(1) 4(1) 5(1) 6(1) del: One_nat_def)
  then show ?thesis using 1(2) t3 t4 t5 t6 by auto
qed


lemma removeEndings_NN:
  assumes "regions_ok r"
  shows "\<exists>b r'. removeEndings r (RV r) [suffixNN] = Some (b, r') \<and> trimmed r r'
           \<and> (b \<longrightarrow> prefix (word r' @ [cyr_en]) (word r))"
proof -
  have v: "valid_runes (word r)" and z: "0 \<le> RV r" using assms by (simp_all add: regions_ok_def)
  show ?thesis
  proof (cases "suffix [cyr_en, cyr_en] (drop (nat (RV r)) (word r))")
    case True
    then have "suffix [cyr_en, cyr_en] (word r)"
      using suffix_drop suffix_order.trans by blast
    then obtain p where p: "word r = p @ [cyr_en, cyr_en]" by (auto simp: suffix_def)
    have "removeEndings r (RV r) [suffixNN] = Some (True, r\<lparr>word := p\<rparr>)"
      using removeEndings_single [OF v valid_suffixNN z, of "[]"] True
      by (simp add: suffixNN_def suffixNN_runes_def p)
    moreover have "trimmed r (r\<lparr>word := p\<rparr>)" by (simp add: trimmed_def p)
    moreover have "prefix (word (r\<lparr>word := p\<rparr>) @ [cyr_en]) (word r)" by (simp add: p)
    ultimately show ?thesis by blast
  next
    case False
    then have "removeEndings r (RV r) [suffixNN] = Some (False, r)"
      using removeEndings_single [OF v valid_suffixNN z, of "[]"]
      by (simp add: suffixNN_def suffixNN_runes_def)
    then show ?thesis using trimmed_refl [of r] by auto
  qed
qed

lemma GetWordBase_trims:
  "\<exists>r'. GetWordBase r s = Some (string_of_runes (word r'), r')
         \<and> prefix (word r') (runes_of_string s) \<and> valid_runes (word r')"
proof -
  obtain r1 where 1: "findRegions (r\<lparr>word := runes_of_string s, RV := 0, R2 := 0\<rparr>) = Some r1"
      "word r1 = runes_of_string s" and ok1: "regions_ok r1"
    using findRegions_total [where r = r and s = s] by blast
  obtain r2 where 2: "Step1 r1 = Some r2" "trimmed r1 r2"
    using Step1_trims [OF ok1] by blast
  have ok2: "regions_ok r2" using ok1 2(2) by (rule regions_ok_trimmed)
  obtain b3 r3 where 3: "removeEndings r2 (RV r2) [suffixI] = Some (b3, r3)" "trimmed r2 r3"
    using trims_RV_single [OF ok2 valid_suffixI] unfolding suffixI_def by blast
  have ok3: "regions_ok r3" using ok2 3(2) by (rule regions_ok_trimmed)
  obtain b4 r4 where 4: "removeEndings r3 (R2 r3) [suffixDerivational] = Some (b4, r4)"
      "trimmed r3 r4"
    using trims_R2_single [OF ok3 valid_suffixDerivational] unfolding suffixDerivational_def
    by blast
  have ok4: "regions_ok r4" using ok3 4(2) by (rule regions_ok_trimmed)
  obtain nn r5 where 5: "removeEndings r4 (RV r4) [suffixNN] = Some (nn, r5)" "trimmed r4 r5"
      "nn \<longrightarrow> prefix (word r5 @ [cyr_en]) (word r4)"
    using removeEndings_NN [OF ok4] by blast
  have ok5: "regions_ok r5" using ok4 5(2) by (rule regions_ok_trimmed)
  define r6 where "r6 = (if nn then r5\<lparr>word := runes_of_string
                            (string_of_runes (word r5) @ string_of_runes [cyr_en])\<rparr> else r5)"
  have w6: "word r6 = (if nn then word r5 @ [cyr_en] else word r5)"
    using ok5 runes_of_string_of_runes [of "word r5 @ [cyr_en]"]
    by (simp add: r6_def regions_ok_def string_of_runes_append valid_cyr_en)
  have f6: "RV r6 = RV r5" "R2 r6 = R2 r5" by (simp_all add: r6_def)
  have t6: "trimmed r4 r6"
    using 5(2,3) by (auto simp: trimmed_def w6 f6)
  have ok6: "regions_ok r6" using ok4 t6 by (rule regions_ok_trimmed)
  obtain b7 r7 where 7: "removeEndings r6 (RV r6) [suffixSuperlative] = Some (b7, r7)"
      "trimmed r6 r7"
    using trims_RV_single [OF ok6 valid_suffixSuperlative] unfolding suffixSuperlative_def
    by blast
  have ok7: "regions_ok r7" using ok6 7(2) by (rule regions_ok_trimmed)
  obtain b8 r8 where 8: "removeEndings r7 (RV r7) [suffixSoftSign] = Some (b8, r8)"
      "trimmed r7 r8"
    using trims_RV_single [OF ok7 valid_suffixSoftSign] unfolding suffixSoftSign_def by blast
  have ok8: "regions_ok r8" using ok7 8(2) by (rule regions_ok_trimmed)
  have "trimmed r1 r8"
    using 2(2) 3(2) 4(2) t6 7(2) 8(2) by (blast intro: trimmed_trans)
  then have p: "prefix (word r8) (runes_of_string s)" by (simp add: trimmed_def 1(2))
  have "GetWordBase r s = Some (string_of_runes (word r8), r8)"
    by (simp add: GetWordBase_def 1(1) 2(1) 3(1) 4(1) 5(1) 7(1) 8(1) r6_def [symmetric])
  then show ?thesis using p ok8 by (auto simp: regions_ok_def)
qed

section \<open>Vowels and the evaluation of the stemmer on runes\<close>

lemma Contains_iff: "Contains s sub = (\<exists>ps ss. s = ps @ sub @ ss)"
proof (induction s)
  case Nil
  then show ?case by auto
next
  case (Cons c cs)
  have "(take (length sub) (c # cs) = sub) = (\<exists>ss. c # cs = sub @ ss)"
    by (metis append_eq_conv_conj append_take_drop_id)
  moreover have "(\<exists>ps ss. c # cs = ps @ sub @ ss)
                  = ((\<exists>ss. c # cs = sub @ ss) \<or> (\<exists>ps ss. cs = ps @ sub @ ss))"
  proof
    assume "\<exists>ps ss. c # cs = ps @ sub @ ss"
    then obtain ps ss where e: "c # cs = ps @ sub @ ss" by blast
    show "(\<exists>ss. c # cs = sub @ ss) \<or> (\<exists>ps ss. cs = ps @ sub @ ss)"
    proof (cases ps)
      case Nil
      then show ?thesis using e by auto
    next
      case (Cons p ps')
      then have "cs = ps' @ sub @ ss" using e by simp
      then show ?thesis by blast
    qed
  next
    assume "(\<exists>ss. c # cs = sub @ ss) \<or> (\<exists>ps ss. cs = ps @ sub @ ss)"
    then show "\<exists>ps ss. c # cs = ps @ sub @ ss"
    proof
      assume "\<exists>ss. c # cs = sub @ ss"
      then show ?thesis by (metis append_Nil)
    next
      assume "\<exists>ps ss. cs = ps @ sub @ ss"
      then show ?thesis by (metis append_Cons)
    qed
  qed
  ultimately show ?case using Cons.IH by simp
qed

lemma EncodeRune_inside:
  assumes "string_of_runes b = ps @ EncodeRune c @ ss" "valid_rune c" "valid_runes b"
  shows "c \<in> set b"
  using assms
proof (induction b arbitrary: ps)
  case Nil
  then show ?case by (simp add: EncodeRune_not_Nil)
next
  case (Cons r b)
  have vr: "valid_rune r" and vb: "valid_runes b" using Cons.prems(3) by simp_all
  obtain e es where e: "EncodeRune r = e # es" and cont: "list_all (\<lambda>x. is_cont (unat x)) es"
    using EncodeRune_shape [of r] by auto
  obtain d ds where e0: "EncodeRune c = d # ds" and lead: "\<not> is_cont (unat d)"
    using EncodeRune_shape [of c] by auto
  have eq: "EncodeRune r @ string_of_runes b = ps @ EncodeRune c @ ss"
    using Cons.prems(1) by (simp add: string_of_runes_Cons)
  then consider us where "EncodeRune r = ps @ us" "us @ string_of_runes b = EncodeRune c @ ss"
    | us where "EncodeRune r @ us = ps" "string_of_runes b = us @ EncodeRune c @ ss"
    by (auto simp: append_eq_append_conv2)
  then show ?case
  proof cases
    case 1
    show ?thesis
    proof (cases ps)
      case Nil
      have "DecodeRune (EncodeRune r @ string_of_runes b) = DecodeRune (EncodeRune c @ ss)"
        using eq Nil by simp
      then have "r = c"
        using DecodeRune_EncodeRune [OF vr] DecodeRune_EncodeRune [OF Cons.prems(2)] by simp
      then show ?thesis by simp
    next
      case (Cons p ps')
      then have es: "es = ps' @ us" using 1(1) e by simp
      show ?thesis
      proof (cases us)
        case Nil
        then have "string_of_runes b = [] @ EncodeRune c @ ss" using 1(2) by simp
        from Cons.IH [OF this Cons.prems(2) vb] show ?thesis by simp
      next
        case (Cons u us')
        have "is_cont (unat u)" using cont es Cons by simp
        moreover have "u = d" using 1(2) Cons e0 by simp
        ultimately show ?thesis using lead by simp
      qed
    qed
  next
    case 2
    from Cons.IH [OF 2(2) Cons.prems(2) vb] show ?thesis by simp
  qed
qed

lemma valid_VOWEL_runes: "valid_runes VOWEL_runes"
  by (simp add: VOWEL_runes_def valid_rune_def)

lemma isVowel_rune:
  assumes "valid_rune c"
  shows "isVowel (string_of_runes [c]) = (c \<in> set VOWEL_runes)"
proof
  assume "isVowel (string_of_runes [c])"
  then obtain ps ss where "string_of_runes VOWEL_runes = ps @ EncodeRune c @ ss"
    by (auto simp: isVowel_def VOWEL_def Contains_iff string_of_runes_Cons)
  then show "c \<in> set VOWEL_runes"
    using assms valid_VOWEL_runes by (rule EncodeRune_inside)
next
  assume "c \<in> set VOWEL_runes"
  then obtain xs ys where "VOWEL_runes = xs @ c # ys" by (auto simp: in_set_conv_decomp)
  then have "VOWEL = string_of_runes (xs @ [c] @ ys)"
    by (simp add: VOWEL_def)
  then have "VOWEL = string_of_runes xs @ string_of_runes [c] @ string_of_runes ys"
    by (simp only: string_of_runes_append)
  then show "isVowel (string_of_runes [c])"
    unfolding isVowel_def Contains_iff by blast
qed

lemma findRegions_loop_runes:
  assumes "valid_runes (word r)" "1 \<le> i"
  shows "findRegions_loop r i state =
     (if i < int (length (word r)) then
        (let prevRune = word r ! nat (i - 1); curRune = word r ! nat i in
         if state = 0 then
           (if curRune \<in> set VOWEL_runes then findRegions_loop (r\<lparr>RV := i + 1\<rparr>) (i + 1) 1
            else findRegions_loop r (i + 1) state)
         else if state = 1 then
           (if prevRune \<in> set VOWEL_runes \<and> curRune \<notin> set VOWEL_runes
            then findRegions_loop r (i + 1) 2
            else findRegions_loop r (i + 1) state)
         else if state = 2 then
           (if prevRune \<in> set VOWEL_runes \<and> curRune \<notin> set VOWEL_runes
            then Some (r\<lparr>R2 := i + 1\<rparr>)
            else findRegions_loop r (i + 1) state)
         else findRegions_loop r (i + 1) state)
      else Some r)"
proof (cases "i < int (length (word r))")
  case False
  then show ?thesis by (simp add: findRegions_loop.simps)
next
  case True
  have p: "index (word r) (i - 1) = Some (word r ! nat (i - 1))"
    using True assms(2) by (simp add: index_in_range)
  have c: "index (word r) i = Some (word r ! nat i)"
    using True assms(2) by (simp add: index_in_range)
  have vp: "valid_rune (word r ! nat (i - 1))"
    using assms True by (simp add: valid_runes_def list_all_length)
  have vc: "valid_rune (word r ! nat i)"
    using assms True by (simp add: valid_runes_def list_all_length)
  show ?thesis
    by (subst findRegions_loop.simps) (simp add: True p c Let_def isVowel_rune vp vc)
qed

lemma plain_match_fun: "plain_match tail = (\<lambda>s. s \<noteq> [] \<and> suffix s tail)"
  by (rule ext) (simp add: plain_match_def)

lemma gated_match_fun:
  "gated_match tail = (\<lambda>s. s \<noteq> [] \<and> (suffix (cyr_a # s) tail \<or> suffix (cyr_ya # s) tail))"
  by (rule ext) (simp add: gated_match_def)

lemma removeEndings_one:
  assumes "T = map string_of_runes S" "list_all valid_runes S" "valid_runes (word r)" "0 \<le> region"
  shows "removeEndings r region [T]
           = Some (strip r (find (plain_match (drop (nat region) (word r))) S))"
  unfolding assms(1) removeEndings_single [OF assms(3,2,4), of "[]", simplified]
  by (simp add: strip_def plain_match_fun)

lemma removeEndings_two:
  assumes "[T0, T1] = [map string_of_runes S0, map string_of_runes S1]"
    "list_all valid_runes S0" "list_all valid_runes S1" "valid_runes (word r)" "0 \<le> region"
  shows "removeEndings r region [T0, T1]
           = Some (case find (gated_match (drop (nat region) (word r))) S0 of
                     Some s \<Rightarrow> strip r (Some s)
                   | None \<Rightarrow> strip r (find (plain_match (drop (nat region) (word r))) S1))"
  unfolding assms(1) removeEndings_double [OF assms(4,2,3,5)]
  by (simp add: strip_def plain_match_fun gated_match_fun split: option.split)

lemma removeEndings_suffixI:
  "valid_runes (word r) \<Longrightarrow> 0 \<le> region \<Longrightarrow> removeEndings r region [suffixI]
     = Some (strip r (find (plain_match (drop (nat region) (word r))) suffixI_runes))"
  by (rule removeEndings_one [OF suffixI_def valid_suffixI])

lemma removeEndings_suffixNN:
  "valid_runes (word r) \<Longrightarrow> 0 \<le> region \<Longrightarrow> removeEndings r region [suffixNN]
     = Some (strip r (find (plain_match (drop (nat region) (word r))) suffixNN_runes))"
  by (rule removeEndings_one [OF suffixNN_def valid_suffixNN])

lemma removeEndings_suffixNoun:
  "valid_runes (word r) \<Longrightarrow> 0 \<le> region \<Longrightarrow> removeEndings r region [suffixNoun]
     = Some (strip r (find (plain_match (drop (nat region) (word r))) suffixNoun_runes))"
  by (rule removeEndings_one [OF suffixNoun_def valid_suffixNoun])

lemma removeEndings_suffixAdjective:
  "valid_runes (word r) \<Longrightarrow> 0 \<le> region \<Longrightarrow> removeEndings r region [suffixAdjective]
     = Some (strip r (find (plain_match (drop (nat region) (word r))) suffixAdjective_runes))"
  by (rule removeEndings_one [OF suffixAdjective_def valid_suffixAdjective])

lemma removeEndings_suffixReflexives:
  "valid_runes (word r) \<Longrightarrow> 0 \<le> region \<Longrightarrow> removeEndings r region [suffixReflexives]
     = Some (strip r (find (plain_match (drop (nat region) (word r))) suffixReflexives_runes))"
  by (rule removeEndings_one [OF suffixReflexives_def valid_suffixReflexives])

lemma removeEndings_suffixSuperlative:
  "valid_runes (word r) \<Longrightarrow> 0 \<le> region \<Longrightarrow> removeEndings r region [suffixSuperlative]
     = Some (strip r (find (plain_match (drop (nat region) (word r))) suffixSuperlative_runes))"
  by (rule removeEndings_one [OF suffixSuperlative_def valid_suffixSuperlative])

lemma removeEndings_suffixSoftSign:
  "valid_runes (word r) \<Longrightarrow> 0 \<le> region \<Longrightarrow> removeEndings r region [suffixSoftSign]
     = Some (strip r (find (plain_match (drop (nat region) (word r))) suffixSoftSign_runes))"
  by (rule removeEndings_one [OF suffixSoftSign_def valid_suffixSoftSign])

lemma removeEndings_suffixDerivational:
  "valid_runes (word r) \<Longrightarrow> 0 \<le> region \<Longrightarrow> removeEndings r region [suffixDerivational]
     = Some (strip r (find (plain_match (drop (nat region) (word r))) suffixDerivational_runes))"
  by (rule removeEndings_one [OF suffixDerivational_def valid_suffixDerivational])

lemma removeEndings_gerund:
  "valid_runes (word r) \<Longrightarrow> 0 \<le> region \<Longrightarrow>
   removeEndings r region [suffixPerfectiveGerunds ! 0, suffixPerfectiveGerunds ! 1]
     = Some (case find (gated_match (drop (nat region) (word r)))
                   (suffixPerfectiveGerunds_runes ! 0) of
               Some s \<Rightarrow> strip r (Some s)
             | None \<Rightarrow> strip r (find (plain_match (drop (nat region) (word r)))
                                  (suffixPerfectiveGerunds_runes ! 1)))"
  by (rule removeEndings_two [OF gerund_packs valid_suffixPerfectiveGerunds])

lemma removeEndings_verb:
  "valid_runes (word r) \<Longrightarrow> 0 \<le> region \<Longrightarrow>
   removeEndings r region [suffixVerb ! 0, suffixVerb ! 1]
     = Some (case find (gated_match (drop (nat region) (word r))) (suffixVerb_runes ! 0) of
               Some s \<Rightarrow> strip r (Some s)
             | None \<Rightarrow> strip r (find (plain_match (drop (nat region) (word r)))
                                  (suffixVerb_runes ! 1)))"
  by (rule removeEndings_two [OF verb_packs valid_suffixVerb])

lemma removeEndings_participle:
  "valid_runes (word r) \<Longrightarrow> 0 \<le> region \<Longrightarrow>
   removeEndings r region [suffixParticiple ! 0, suffixParticiple ! 1]
     = Some (case find (gated_match (drop (nat region) (word r)))
                   (appendPrefix suffixAdjective_runes [participle1_runes]) of
               Some s \<Rightarrow> strip r (Some s)
             | None \<Rightarrow> strip r (find (plain_match (drop (nat region) (word r)))
                                  (appendPrefix suffixAdjective_runes [participle2_runes])))"
  by (rule removeEndings_two [OF participle_packs
        valid_appendPrefix [OF valid_suffixAdjective valid_participle(1)]
        valid_appendPrefix [OF valid_suffixAdjective valid_participle(2)]])

lemmas removeEndings_tables =
  removeEndings_suffixI removeEndings_suffixNN removeEndings_suffixNoun
  removeEndings_suffixAdjective removeEndings_suffixReflexives removeEndings_suffixSuperlative
  removeEndings_suffixSoftSign removeEndings_suffixDerivational removeEndings_gerund
  removeEndings_verb removeEndings_participle

lemmas table_rune_defs =
  suffixI_runes_def suffixNN_runes_def suffixNoun_runes_def suffixAdjective_runes_def
  suffixReflexives_runes_def suffixSuperlative_runes_def suffixSoftSign_runes_def
  suffixDerivational_runes_def suffixPerfectiveGerunds_runes_def suffixVerb_runes_def
  participle1_runes_def participle2_runes_def appendPrefix_def VOWEL_runes_def

lemmas stem_eval =
  GetWordBase_def Step1_def findRegions_def findRegions_loop_runes runes_of_string_of_runes
  removeEndings_tables strip_def plain_match_def gated_match_def table_rune_defs
  suffix_to_prefix valid_rune_def string_of_runes_append [symmetric]

subsection \<open>An empty tail\<close>

lemma trimFirstSuffix_Nil: "trimFirstSuffix [] S b = []"
  by (induction S) (auto simp: TrimSuffix_def)

lemma removeEndings_empty_tail:
  assumes "int (length (word st)) \<le> region" "packs \<noteq> []"
  shows "removeEndings st region packs = Some (False, st)"
proof -
  obtain S rest where p: "packs = S # rest" using assms(2) by (cases packs) auto
  have z: "0 \<le> region" using assms(1) by linarith
  have d: "drop (nat region) (word st) = []" using assms(1) by simp
  show ?thesis
    unfolding p removeEndings_eq [OF z] by (simp add: d trimFirstSuffix_Nil)
qed

section \<open>The documented example, word by word\<close>

lemma FindAllString_example:
  assumes "list_all L [cyr_ghe, cyr_cap_em, cyr_o, cyr_es, cyr_ka, cyr_ve, cyr_a, cyr_u, cyr_el,
                       cyr_cap_pe, cyr_ya, cyr_er, cyr_en, cyr_de, cyr_cap_a, cyr_te]"
    and "\<not> L 0x20" and "\<not> L 0x2C" and "\<not> L 0x2E"
  shows "FindAllString L (string_of_runes example_text) = map string_of_runes example_words"
  using assms
  by (simp add: FindAllString_def example_text_def example_words_def string_of_runes_def
      EncodeRune_def valid_rune_def DecodeRune.simps is_cont_def word_rune_def)


lemma NormalizeText_loop_bases:
  assumes "list_all2 (\<lambda>w b. \<forall>r. map_option fst (GetWordBase r w) = Some b) ws bs"
  shows "map_option fst (NormalizeText_loop r ws) = Some bs"
  using assms
proof (induction ws bs arbitrary: r rule: list_all2_induct)
  case Nil
  then show ?case by simp
next
  case (Cons w ws b bs)
  obtain r1 where 1: "GetWordBase r w = Some (b, r1)"
    using Cons.hyps(1) [rule_format, of r] by (cases "GetWordBase r w") auto
  obtain r2 where 2: "NormalizeText_loop r1 ws = Some (bs, r2)"
    using Cons.IH [of r1] by (cases "NormalizeText_loop r1 ws") auto
  show ?case by (simp add: 1 2)
qed

lemma base_ghe: "map_option fst (GetWordBase r (string_of_runes [cyr_ghe]))
    = Some (string_of_runes [cyr_ghe])"
  by (simp add: stem_eval del: One_nat_def)

lemma base_moskva:
  "map_option fst (GetWordBase r (string_of_runes [cyr_cap_em, cyr_o, cyr_es, cyr_ka, cyr_ve, cyr_a]))
    = Some (string_of_runes [cyr_cap_em, cyr_o, cyr_es, cyr_ka, cyr_ve])"
  by (simp add: stem_eval del: One_nat_def)

lemma base_ul: "map_option fst (GetWordBase r (string_of_runes [cyr_u, cyr_el]))
    = Some (string_of_runes [cyr_u, cyr_el])"
  by (simp add: stem_eval del: One_nat_def)

lemma base_polyarnaya:
  "map_option fst (GetWordBase r (string_of_runes
       [cyr_cap_pe, cyr_o, cyr_el, cyr_ya, cyr_er, cyr_en, cyr_a, cyr_ya]))
    = Some (string_of_runes [cyr_cap_pe, cyr_o, cyr_el, cyr_ya, cyr_er, cyr_en])"
  by (simp add: stem_eval del: One_nat_def)

lemma base_de: "map_option fst (GetWordBase r (string_of_runes [cyr_de]))
    = Some (string_of_runes [cyr_de])"
  by (simp add: stem_eval del: One_nat_def)

lemma base_31a: "map_option fst (GetWordBase r (string_of_runes [0x33, 0x31, cyr_cap_a]))
    = Some (string_of_runes [0x33, 0x31, cyr_cap_a])"
  by (simp add: stem_eval del: One_nat_def)

lemma base_str: "map_option fst (GetWordBase r (string_of_runes [cyr_es, cyr_te, cyr_er]))
    = Some (string_of_runes [cyr_es, cyr_te, cyr_er])"
  by (simp add: stem_eval del: One_nat_def)

lemma base_1: "map_option fst (GetWordBase r (string_of_runes [0x31]))
    = Some (string_of_runes [0x31])"
  by (simp add: stem_eval del: One_nat_def)

lemma Join_example:
  "Join (map string_of_runes example_bases) (string_of_runes [0x20])
     = string_of_runes example_normalized"
  by (simp add: example_bases_def example_normalized_def string_of_runes_def)

section \<open>What the region finder computes\<close>

text \<open>
  The scan for RV starts at index 1: RV is the index after the first vowel among the
  runes from index 1 on, and 0 when there is none. The states 1 and 2 leave RV alone.
\<close>

lemma findRegions_loop_keeps_RV:
  assumes "1 \<le> i" "state \<noteq> 0" "findRegions_loop r i state = Some r'"
  shows "RV r' = RV r"
  using assms
proof (induction r i state rule: findRegions_loop.induct)
  case (1 r i state)
  show ?case
  proof (cases "i < int (length (word r))")
    case False
    then show ?thesis using "1.prems" by (simp add: findRegions_loop.simps)
  next
    case True
    have p: "index (word r) (i - 1) = Some (word r ! nat (i - 1))"
      using True "1.prems"(1) by (simp add: index_in_range)
    have c: "index (word r) i = Some (word r ! nat i)"
      using True "1.prems"(1) by (simp add: index_in_range)
    have i: "1 \<le> i + 1" using "1.prems"(1) by simp
    show ?thesis
      using "1.prems"(2,3) "1.IH" [OF True refl p c refl refl] i
      apply (subst (asm) findRegions_loop.simps)
      apply (auto simp: True p c Let_def split: if_splits)
      done
  qed
qed

lemma findRegions_loop_first_vowel:
  assumes "1 \<le> i" "valid_runes (word r)" "findRegions_loop r i 0 = Some r'"
  shows "RV r' = (case first_vowel_from (nat i) (drop (nat i) (word r)) of
                    Some k \<Rightarrow> int k + 1 | None \<Rightarrow> RV r)"
  using assms
proof (induction "length (word r) - nat i" arbitrary: i r)
  case 0
  then have "\<not> i < int (length (word r))" by linarith
  moreover have "drop (nat i) (word r) = []" using 0 by simp
  ultimately show ?case using "0.prems" by (simp add: findRegions_loop.simps)
next
  case (Suc n)
  then have lt: "i < int (length (word r))" by linarith
  then have d: "drop (nat i) (word r) = word r ! nat i # drop (nat (i + 1)) (word r)"
    using Suc.prems(1) by (simp add: Cons_nth_drop_Suc nat_add_distrib)
  have n1: "nat (i + 1) = Suc (nat i)" using Suc.prems(1) by simp
  show ?case
  proof (cases "word r ! nat i \<in> set VOWEL_runes")
    case True
    then have "findRegions_loop (r\<lparr>RV := i + 1\<rparr>) (i + 1) 1 = Some r'"
      using Suc.prems lt by (simp add: findRegions_loop_runes [of r i 0] Let_def)
    then have "RV r' = i + 1"
      using findRegions_loop_keeps_RV [of "i + 1" 1 "r\<lparr>RV := i + 1\<rparr>" r'] Suc.prems(1)
      by simp
    then show ?thesis using True Suc.prems(1) by (simp add: d)
  next
    case False
    then have "findRegions_loop r (i + 1) 0 = Some r'"
      using Suc.prems lt by (simp add: findRegions_loop_runes [of r i 0] Let_def)
    moreover have "n = length (word r) - nat (i + 1)" using Suc.hyps(2) n1 by simp
    moreover have "1 \<le> i + 1" using Suc.prems(1) by simp
    ultimately have "RV r' = (case first_vowel_from (nat (i + 1)) (drop (nat (i + 1)) (word r)) of
                    Some k \<Rightarrow> int k + 1 | None \<Rightarrow> RV r)"
      using Suc.hyps(1) Suc.prems(2) by blast
    then show ?thesis using False by (simp add: d n1)
  qed
qed

lemma findRegions_RV:
  assumes "findRegions (r\<lparr>word := runes_of_string s, RV := 0, R2 := 0\<rparr>) = Some r'"
  shows "RV r' = (case first_vowel_from 1 (tl (runes_of_string s)) of
                    Some k \<Rightarrow> int k + 1 | None \<Rightarrow> 0)"
  using findRegions_loop_first_vowel
    [of 1 "r\<lparr>word := runes_of_string s, RV := 0, R2 := 0\<rparr>" r'] assms
  by (simp add: findRegions_def valid_runes_of_string drop_Suc split: option.split)

section \<open>The order of step 1\<close>

lemma one_branch_success:
  assumes "one_branch log"
  shows "length (filter (\<lambda>(e, ok). ok \<and> e \<noteq> Reflexive) log) \<le> 1"
  using assms unfolding one_branch_def by (elim disjE exE) simp_all

lemma Step1_attempts_shape:
  assumes "regions_ok r"
  shows "\<exists>log r'. Step1_attempts r = Some (log, r') \<and> Step1 r = Some r'
     \<and> one_branch log"
proof -
  obtain g r1 where 1: "removeEndings r (RV r)
        [suffixPerfectiveGerunds ! 0, suffixPerfectiveGerunds ! 1] = Some (g, r1)" "trimmed r r1"
    using trims_RV_double [OF assms valid_suffixPerfectiveGerunds]
    unfolding gerund_packs by blast
  have ok1: "regions_ok r1" using assms 1(2) by (rule regions_ok_trimmed)
  obtain x r2 where 2: "removeEndings r1 (RV r1) [suffixReflexives] = Some (x, r2)" "trimmed r1 r2"
    using trims_RV_single [OF ok1 valid_suffixReflexives]
    unfolding suffixReflexives_def by blast
  have ok2: "regions_ok r2" using ok1 2(2) by (rule regions_ok_trimmed)
  obtain p r3 where 3: "removeEndings r2 (RV r2)
        [suffixParticiple ! 0, suffixParticiple ! 1] = Some (p, r3)" "trimmed r2 r3"
    using trims_RV_double [OF ok2 valid_appendPrefix [OF valid_suffixAdjective valid_participle(1)]
        valid_appendPrefix [OF valid_suffixAdjective valid_participle(2)]]
    unfolding participle_packs by blast
  have ok3: "regions_ok r3" using ok2 3(2) by (rule regions_ok_trimmed)
  obtain a r4 where 4: "removeEndings r3 (RV r3) [suffixAdjective] = Some (a, r4)" "trimmed r3 r4"
    using trims_RV_single [OF ok3 valid_suffixAdjective]
    unfolding suffixAdjective_def by blast
  have ok4: "regions_ok r4" using ok3 4(2) by (rule regions_ok_trimmed)
  obtain v r5 where 5: "removeEndings r4 (RV r4) [suffixVerb ! 0, suffixVerb ! 1] = Some (v, r5)"
      "trimmed r4 r5"
    using trims_RV_double [OF ok4 valid_suffixVerb]
    unfolding verb_packs by blast
  have ok5: "regions_ok r5" using ok4 5(2) by (rule regions_ok_trimmed)
  obtain n r6 where 6: "removeEndings r5 (RV r5) [suffixNoun] = Some (n, r6)" "trimmed r5 r6"
    using trims_RV_single [OF ok5 valid_suffixNoun]
    unfolding suffixNoun_def by blast
  have S: "Step1 r = Some (if g then r1 else if p then r3 else if a then r4 else if v then r5 else r6)"
    by (simp add: Step1_def 1(1) 2(1) 3(1) 4(1) 5(1) 6(1) del: One_nat_def)
  have A: "Step1_attempts r = Some
     (if g then ([(PerfectiveGerund, True)], r1)
      else if p then ([(PerfectiveGerund, False), (Reflexive, x), (Participle, True)], r3)
      else if a then ([(PerfectiveGerund, False), (Reflexive, x), (Participle, False),
                       (Adjective, True)], r4)
      else if v then ([(PerfectiveGerund, False), (Reflexive, x), (Participle, False),
                       (Adjective, False), (Verb, True)], r5)
      else ([(PerfectiveGerund, False), (Reflexive, x), (Participle, False),
             (Adjective, False), (Verb, False), (Noun, n)], r6))"
    by (simp add: Step1_attempts_def 1(1) 2(1) 3(1) 4(1) 5(1) 6(1) del: One_nat_def)
  consider "g" | "\<not> g" "p" | "\<not> g" "\<not> p" "a" | "\<not> g" "\<not> p" "\<not> a" "v"
    | "\<not> g" "\<not> p" "\<not> a" "\<not> v"
    by blast
  then show ?thesis
  proof cases
    case 1
    then show ?thesis unfolding S A by (simp add: one_branch_def)
  next
    case 2
    then show ?thesis unfolding S A by (simp add: one_branch_def)
  next
    case 3
    then show ?thesis unfolding S A by (simp add: one_branch_def)
  next
    case 4
    then show ?thesis unfolding S A by (simp add: one_branch_def)
  next
    case 5
    then show ?thesis unfolding S A by (simp add: one_branch_def)
  qed
qed

section \<open>Spaces in words and bases\<close>

lemma GetWordBase_receiver: "GetWordBase r s = GetWordBase r' s"
proof -
  have eq: "r\<lparr>word := runes_of_string s, RV := 0, R2 := 0\<rparr>
          = r'\<lparr>word := runes_of_string s, RV := 0, R2 := 0\<rparr>"
    by (cases r, cases r') simp
  show ?thesis unfolding GetWordBase_def eq by (rule refl)
qed

lemma EncodeRune_space: "(0x20 \<in> set (EncodeRune c)) = (c = 0x20)"
proof (cases "valid_rune c")
  case False
  then have "c \<noteq> 0x20" by (auto simp: valid_rune_def)
  moreover have "0x20 \<notin> set (EncodeRune c)"
    by (simp add: EncodeRune_invalid [OF False])
       (simp add: EncodeRune_def valid_rune_def RuneError_def)
  ultimately show ?thesis by simp
next
  case True
  consider "c < 0x80" | "0x80 \<le> c" "c < 0x800" | "0x800 \<le> c" "c < 0x10000" | "0x10000 \<le> c"
    by linarith
  then show ?thesis
  proof cases
    case 1
    have "(of_nat c = (0x20 :: byte)) = (c = 0x20)"
    proof
      assume "of_nat c = (0x20 :: byte)"
      then have "unat (of_nat c :: byte) = unat (0x20 :: byte)" by simp
      then show "c = 0x20" using 1 by (simp add: unat_byte_of_nat)
    qed simp
    then show ?thesis using 1 by (auto simp: EncodeRune_1)
  next
    case 2
    have "unat b \<noteq> 0x20" if "b \<in> set (EncodeRune c)" for b
    proof -
      have a: "0xC0 + c div 64 < 256" "0x80 + c mod 64 < 256" using 2 by auto
      show ?thesis using that 2 a
        by (auto simp: EncodeRune_2 unat_byte_of_nat simp del: of_nat_add)
    qed
    then have "0x20 \<notin> set (EncodeRune c)" by fastforce
    then show ?thesis using 2 by simp
  next
    case 3
    have "unat b \<noteq> 0x20" if "b \<in> set (EncodeRune c)" for b
    proof -
      have a: "0xE0 + c div 4096 < 256" "0x80 + c div 64 mod 64 < 256" "0x80 + c mod 64 < 256"
        using 3 by auto
      show ?thesis using that 3 a True
        by (auto simp: EncodeRune_3 unat_byte_of_nat simp del: of_nat_add)
    qed
    then have "0x20 \<notin> set (EncodeRune c)" by fastforce
    then show ?thesis using 3 by simp
  next
    case 4
    have "unat b \<noteq> 0x20" if "b \<in> set (EncodeRune c)" for b
    proof -
      have "c \<le> 0x10FFFF" using True 4 by (simp add: valid_rune_def)
      then have "c div 262144 \<le> 4" by simp
      then have a: "0xF0 + c div 262144 < 256" "0x80 + c div 4096 mod 64 < 256"
        "0x80 + c div 64 mod 64 < 256" "0x80 + c mod 64 < 256"
        by auto
      show ?thesis using that 4 a True
        by (auto simp: EncodeRune_4 unat_byte_of_nat simp del: of_nat_add)
    qed
    then have "0x20 \<notin> set (EncodeRune c)" by fastforce
    then show ?thesis using 4 by simp
  qed
qed

lemma string_of_runes_space: "(0x20 \<in> set (string_of_runes rs)) = (0x20 \<in> set rs)"
  by (induction rs) (auto simp: string_of_runes_Cons EncodeRune_space)


lemma DecodeRune_ascii: "unat c < 0x80 \<Longrightarrow> DecodeRune (c # cs) = (unat c, 1)"
  by (simp add: DecodeRune.simps)

lemma byte_eq_space: "(c = (0x20 :: byte)) = (unat c = 0x20)"
proof
  assume "unat c = 0x20"
  then have "unat c = unat (0x20 :: byte)" by simp
  then show "c = 0x20" by (simp only: word_unat_eq_iff)
qed simp

lemma DecodeRune_space:
  assumes "fst (DecodeRune (c # cs)) = 0x20"
  shows "c = 0x20"
proof -
  let ?b0 = "unat c"
  consider "?b0 < 0x80" | "0xC2 \<le> ?b0" "?b0 \<le> 0xDF" | "0xE0 \<le> ?b0" "?b0 \<le> 0xEF"
    | "0xF0 \<le> ?b0" "?b0 \<le> 0xF4"
    | "0x80 \<le> ?b0" "?b0 < 0xC2" | "0xF4 < ?b0"
    by linarith
  then show ?thesis
  proof cases
    case 1
    then show ?thesis using assms by (simp add: DecodeRune_ascii byte_eq_space)
  next
    case 2
    then show ?thesis using assms
      by (auto simp: DecodeRune.simps Let_def RuneError_def is_cont_def
          split: list.splits if_splits)
  next
    case 3
    then show ?thesis using assms
      by (auto simp: DecodeRune.simps Let_def RuneError_def is_cont_def second_lo_def
          split: list.splits if_splits)
  next
    case 4
    then show ?thesis using assms
      by (auto simp: DecodeRune.simps Let_def RuneError_def is_cont_def second_lo_def
          split: list.splits if_splits)
  next
    case 5
    then show ?thesis using assms by (simp add: DecodeRune.simps RuneError_def)
  next
    case 6
    then show ?thesis using assms by (simp add: DecodeRune.simps RuneError_def)
  qed
qed

lemma DecodeRune_tail_bytes:
  assumes "DecodeRune (c # cs) = (r, n)"
  shows "0x20 \<notin> set (take (n - 1) cs)"
proof -
  have "\<forall>b \<in> set (take (n - 1) cs). 0x80 \<le> unat b"
    using assms
    by (auto simp: DecodeRune.simps Let_def is_cont_def second_lo_def
        split: list.splits if_splits)
  then show ?thesis by fastforce
qed

lemma runes_of_string_space: "0x20 \<in> set (runes_of_string s) \<Longrightarrow> 0x20 \<in> set s"
proof (induction s rule: runes_of_string.induct)
  case 1
  then show ?case by simp
next
  case (2 c cs)
  obtain r n where d: "DecodeRune (c # cs) = (r, n)" by (cases "DecodeRune (c # cs)")
  from "2.prems" have "r = 0x20 \<or> 0x20 \<in> set (runes_of_string (drop (n - 1) cs))"
    by (simp add: d)
  then show ?case
  proof
    assume "r = 0x20"
    then have "c = 0x20" using DecodeRune_space [of c cs] by (simp add: d)
    then show ?thesis by simp
  next
    assume "0x20 \<in> set (runes_of_string (drop (n - 1) cs))"
    then have "0x20 \<in> set (drop (n - 1) cs)" using "2.IH" [OF d [symmetric]] by simp
    then show ?thesis using set_drop_subset [of "n - 1" cs] by auto
  qed
qed


lemma FindAllString_from_space:
  assumes "\<not> L 0x20" "0x20 \<notin> set cur"
  shows "\<forall>t \<in> set (FindAllString_from L cur s). 0x20 \<notin> set t"
  using assms
proof (induction L cur s rule: FindAllString_from.induct)
  case (1 L cur)
  then show ?case by simp
next
  case (2 L cur c cs)
  obtain r n where d: "DecodeRune (c # cs) = (r, n)" by (cases "DecodeRune (c # cs)")
  note noL = "2.prems"(1)
  show ?case
  proof (cases "word_rune L r")
    case True
    have "c \<noteq> 0x20"
    proof
      assume c: "c = 0x20"
      then have "DecodeRune (c # cs) = (0x20, 1)" by (simp add: DecodeRune_ascii)
      then have "r = 0x20" using d by simp
      then show False using True "2.prems"(1) by (simp add: word_rune_def)
    qed
    then have "0x20 \<notin> set (cur @ c # take (n - 1) cs)"
      using "2.prems"(2) DecodeRune_tail_bytes [OF d] by simp
    from "2.IH"(1) [OF d [symmetric] True noL this] show ?thesis
      by (simp add: d True)
  next
    case False
    from "2.IH"(2) [OF d [symmetric] False noL] show ?thesis
      using "2.prems"(2) by (simp add: d False)
  qed
qed

lemma FindAllString_space:
  "\<not> L 0x20 \<Longrightarrow> \<forall>t \<in> set (FindAllString L text). 0x20 \<notin> set t"
  using FindAllString_from_space [of L "[]" "text"] by (simp add: FindAllString_def)

lemma GetWordBase_space:
  assumes "0x20 \<notin> set s"
  shows "\<exists>b r'. GetWordBase r s = Some (b, r') \<and> 0x20 \<notin> set b"
proof -
  obtain r' where g: "GetWordBase r s = Some (string_of_runes (word r'), r')"
    and p: "prefix (word r') (runes_of_string s)"
    using GetWordBase_trims [of r s] by blast
  have "0x20 \<notin> set (runes_of_string s)" using assms runes_of_string_space by blast
  then have "0x20 \<notin> set (word r')" using p by (auto simp: prefix_def)
  then have "0x20 \<notin> set (string_of_runes (word r'))" by (simp add: string_of_runes_space)
  then show ?thesis using g by blast
qed

lemma Split_from_no_space: "0x20 \<notin> set b \<Longrightarrow> Split_from cur (b @ s) = Split_from (cur @ b) s"
  by (induction b arbitrary: cur) auto

lemma space_literal: "string_of_runes [0x20] = [0x20]"
  by (simp add: string_of_runes_def EncodeRune_def valid_rune_def)

lemma space_fields_Join:
  assumes "\<forall>b \<in> set bs. 0x20 \<notin> set b" "bs \<noteq> []"
  shows "space_fields (Join bs (string_of_runes [0x20])) = bs"
  using assms
proof (induction bs "string_of_runes [0x20]" rule: Join.induct)
  case 1
  then show ?case by simp
next
  case (2 e)
  then show ?case
    using Split_from_no_space [of e "[]" "[]"] by (simp add: space_fields_def)
next
  case (3 e v va)
  have "space_fields (Join (v # va) (string_of_runes [0x20])) = v # va"
    using 3 by simp
  then show ?case
    using 3(2) Split_from_no_space [of e "[]" "0x20 # Join (v # va) (string_of_runes [0x20])"]
    by (simp add: space_fields_def space_literal)
qed

lemma NormalizeText_loop_total:
  assumes "\<forall>w \<in> set ws. 0x20 \<notin> set w"
  shows "\<exists>bs r'. NormalizeText_loop r ws = Some (bs, r')
           \<and> list_all2 (\<lambda>w b. \<forall>st. map_option fst (GetWordBase st w) = Some b) ws bs
           \<and> (\<forall>b \<in> set bs. 0x20 \<notin> set b)"
  using assms
proof (induction ws arbitrary: r)
  case Nil
  then show ?case by simp
next
  case (Cons w ws)
  obtain b r1 where 1: "GetWordBase r w = Some (b, r1)" and b: "0x20 \<notin> set b"
    using GetWordBase_space [of w r] Cons.prems by auto
  have any: "map_option fst (GetWordBase st w) = Some b" for st
    using 1 GetWordBase_receiver [of st w r] by simp
  obtain bs r2 where 2: "NormalizeText_loop r1 ws = Some (bs, r2)"
    and l: "list_all2 (\<lambda>w b. \<forall>st. map_option fst (GetWordBase st w) = Some b) ws bs"
    and s: "\<forall>b \<in> set bs. 0x20 \<notin> set b"
    using Cons.IH [of r1] Cons.prems by auto
  have "NormalizeText_loop r (w # ws) = Some (b # bs, r2)" by (simp add: 1 2)
  then show ?case using any l s b by auto
qed

lemma base_a: "map_option fst (GetWordBase r (string_of_runes [cyr_a])) = Some []"
  by (simp add: stem_eval del: One_nat_def)

lemma FindAllString_a_a:
  "FindAllString (\<lambda>c. 0x410 \<le> c \<and> c \<le> 0x44F) (string_of_runes [cyr_a, 0x20, cyr_a])
     = [string_of_runes [cyr_a], string_of_runes [cyr_a]]"
  by (simp add: FindAllString_def string_of_runes_def EncodeRune_def valid_rune_def
      DecodeRune.simps is_cont_def word_rune_def)

lemma bases_determined:
  assumes "list_all2 (\<lambda>w b. \<forall>st. map_option fst (GetWordBase st w) = Some b) ws bs"
  shows "bs = map (\<lambda>w. the (map_option fst (GetWordBase New w))) ws"
  using assms
proof (induction rule: list_all2_induct)
  case Nil
  then show ?case by simp
next
  case (Cons w ws b bs)
  have "map_option fst (GetWordBase New w) = Some b" using Cons.hyps(1) by blast
  then have "the (map_option fst (GetWordBase New w)) = b" by (simp only: option.sel)
  then show ?case using Cons.IH by simp
qed

section \<open>The scan of one list, on bytes\<close>

lemma TrimSuffix_changes: "(TrimSuffix w s \<noteq> w) = (s \<noteq> [] \<and> HasSuffix w s)"
proof (cases "HasSuffix w s")
  case False
  then show ?thesis by (simp add: TrimSuffix_def)
next
  case True
  then have l: "length s \<le> length w" by (simp add: HasSuffix_def)
  have "(take (length w - length s) w = w) = (s = [])"
    using l by (cases s) (auto simp: take_all_iff)
  then show ?thesis using True by (simp add: TrimSuffix_def)
qed

lemma trimFirstSuffix_bytes:
  "trimFirstSuffix w sufs False =
     (case find (\<lambda>s. s \<noteq> [] \<and> HasSuffix w s) sufs of
        None \<Rightarrow> w | Some s \<Rightarrow> take (length w - length s) w)"
proof (induction sufs)
  case Nil
  then show ?case by simp
next
  case (Cons s sufs)
  show ?case
  proof (cases "s \<noteq> [] \<and> HasSuffix w s")
    case True
    then have "TrimSuffix w s \<noteq> w" by (simp add: TrimSuffix_changes)
    then show ?thesis using True by (simp add: TrimSuffix_def)
  next
    case False
    then have "\<not> TrimSuffix w s \<noteq> w" by (simp only: TrimSuffix_changes) simp
    then show ?thesis using False Cons.IH by auto
  qed
qed

section \<open>The claims\<close>

subsection \<open>Suffix removal\<close>

text \<open>
  Claim C3. Called with one suffix list, \<^verbatim>\<open>removeEndings\<close> strips the first entry in
  list order that ends the tail \<open>word[region:]\<close>, whatever longer entries follow it in
  the list, and strips nothing else; without such an entry the word stays as it is and
  the call reports no removal. An empty entry has no characters to remove: the code
  reads a tail that \<^verbatim>\<open>TrimSuffix\<close> left unchanged as no match and passes on, so "ends
  the tail" is meant of the non-empty entries. The words are those the stemmer can
  hold (\<open>valid_runes\<close>) and the entries are string literals, the encodings of runes.
  The scan itself, \<^verbatim>\<open>trimFirstSuffix\<close> without the vowel test, does the same on
  arbitrary strings of bytes.
\<close>

theorem removeEndings_first_in_list_order:
  assumes "valid_runes (word r)" and "list_all valid_runes suffixes'" and "0 \<le> region"
  shows "removeEndings r region [map string_of_runes suffixes'] =
    Some (case find (\<lambda>s. s \<noteq> [] \<and> suffix s (drop (nat region) (word r))) suffixes' of
            None \<Rightarrow> (False, r)
          | Some s \<Rightarrow> (True, r\<lparr>word := take (length (word r) - length s) (word r)\<rparr>))
    \<and> trimFirstSuffix w sufs False =
         (case find (\<lambda>s. s \<noteq> [] \<and> HasSuffix w s) sufs of
            None \<Rightarrow> w | Some s \<Rightarrow> take (length w - length s) w)"
  using removeEndings_single [OF assms(1,2,3), of "[]"] trimFirstSuffix_bytes [of w sufs]
  by simp

text \<open>
  In the list "n", "nn" the shorter entry comes first: from "vann" only one "n" goes.
  The same with the bytes of "abb" and the list "b", "bb".
\<close>

theorem removeEndings_first_in_list_order_witness:
  "removeEndings \<lparr>word = [cyr_ve, cyr_a, cyr_en, cyr_en], RV = 2, R2 = 0\<rparr> 2
     [map string_of_runes [[cyr_en], [cyr_en, cyr_en]]]
   = Some (True, \<lparr>word = [cyr_ve, cyr_a, cyr_en], RV = 2, R2 = 0\<rparr>)
  \<and> trimFirstSuffix [0x61, 0x62, 0x62] [[0x62], [0x62, 0x62]] False = [0x61, 0x62]"
  using removeEndings_first_in_list_order
    [of "\<lparr>word = [cyr_ve, cyr_a, cyr_en, cyr_en], RV = 2, R2 = 0\<rparr>"
        "[[cyr_en], [cyr_en, cyr_en]]" 2 "[0x61, 0x62, 0x62]" "[[0x62], [0x62, 0x62]]"]
  by (simp add: valid_rune_def suffix_to_prefix HasSuffix_def)

text \<open>
  Claim C4. Called with two suffix lists, an entry \<open>s\<close> of the first list matches only
  where the tail ends with "a" + \<open>s\<close> or "ya" + \<open>s\<close>; then exactly \<open>s\<close> is stripped and
  the vowel before it is the last rune of the new word. When no entry of the first list
  matches so, the second list is scanned with the plain ends-with test.
\<close>

theorem removeEndings_vowel_gate:
  assumes "valid_runes (word r)" and "list_all valid_runes first"
    and "list_all valid_runes second" and "0 \<le> region"
  shows "removeEndings r region [map string_of_runes first, map string_of_runes second] =
      Some (case find (\<lambda>s. s \<noteq> [] \<and> (suffix (cyr_a # s) (drop (nat region) (word r))
                                      \<or> suffix (cyr_ya # s) (drop (nat region) (word r)))) first of
              Some s \<Rightarrow> (True, r\<lparr>word := take (length (word r) - length s) (word r)\<rparr>)
            | None \<Rightarrow>
                (case find (\<lambda>s. s \<noteq> [] \<and> suffix s (drop (nat region) (word r))) second of
                   None \<Rightarrow> (False, r)
                 | Some s \<Rightarrow> (True, r\<lparr>word := take (length (word r) - length s) (word r)\<rparr>)))
    \<and> (\<forall>s. find (\<lambda>s. s \<noteq> [] \<and> (suffix (cyr_a # s) (drop (nat region) (word r))
                                  \<or> suffix (cyr_ya # s) (drop (nat region) (word r)))) first = Some s
          \<longrightarrow> take (length (word r) - length s) (word r) \<noteq> []
              \<and> last (take (length (word r) - length s) (word r)) \<in> {cyr_a, cyr_ya})"
proof -
  let ?gated = "\<lambda>s. s \<noteq> [] \<and> (suffix (cyr_a # s) (drop (nat region) (word r))
                                \<or> suffix (cyr_ya # s) (drop (nat region) (word r)))"
  have kept: "take (length (word r) - length s) (word r) \<noteq> []
                \<and> last (take (length (word r) - length s) (word r)) \<in> {cyr_a, cyr_ya}"
    if "find ?gated first = Some s" for s
  proof -
    have "suffix (cyr_a # s) (drop (nat region) (word r))
            \<or> suffix (cyr_ya # s) (drop (nat region) (word r))"
      using that by (auto simp: find_Some_iff)
    then show ?thesis
      using kept_vowel [of cyr_a s "nat region" "word r"]
        kept_vowel [of cyr_ya s "nat region" "word r"]
      by auto
  qed
  show ?thesis
    using removeEndings_double [OF assms] kept by blast
qed

text \<open>
  In "dav" the "v" follows "a" and the first list strips it. In "raziv" the "v" follows
  "i": the first list does not match and the second list strips "iv".
\<close>

theorem removeEndings_vowel_gate_witness:
  "removeEndings \<lparr>word = [cyr_de, cyr_a, cyr_ve], RV = 2, R2 = 0\<rparr> 0
      [map string_of_runes [[cyr_ve]], map string_of_runes [[cyr_i, cyr_ve]]]
     = Some (True, \<lparr>word = [cyr_de, cyr_a], RV = 2, R2 = 0\<rparr>)
   \<and> removeEndings \<lparr>word = [cyr_er, cyr_a, cyr_ze, cyr_i, cyr_ve], RV = 2, R2 = 0\<rparr> 2
      [map string_of_runes [[cyr_ve]], map string_of_runes [[cyr_i, cyr_ve]]]
     = Some (True, \<lparr>word = [cyr_er, cyr_a, cyr_ze], RV = 2, R2 = 0\<rparr>)"
  using removeEndings_vowel_gate
    [of "\<lparr>word = [cyr_de, cyr_a, cyr_ve], RV = 2, R2 = 0\<rparr>" "[[cyr_ve]]" "[[cyr_i, cyr_ve]]" 0]
    removeEndings_vowel_gate
    [of "\<lparr>word = [cyr_er, cyr_a, cyr_ze, cyr_i, cyr_ve], RV = 2, R2 = 0\<rparr>"
        "[[cyr_ve]]" "[[cyr_i, cyr_ve]]" 2]
  by (simp add: valid_rune_def suffix_to_prefix)

text \<open>
  Claim C7. Whatever the outcome of the match, \<^verbatim>\<open>removeEndings\<close> leaves the first
  \<open>min(region, len(word))\<close> runes of the word as they were. The packs are arbitrary
  strings here. (A negative region or a call without a pack panics before any write.)
\<close>

theorem removeEndings_keeps_prefix:
  assumes "valid_runes (word r)" and "0 \<le> region" and "packs \<noteq> []"
  shows "\<exists>matched r'. removeEndings r region packs = Some (matched, r')
           \<and> take (nat (min region (int (length (word r))))) (word r')
               = take (nat (min region (int (length (word r))))) (word r)"
proof -
  obtain matched r' where e: "removeEndings r region packs = Some (matched, r')"
    using removeEndings_total [OF assms(2,3)] by blast
  have n: "nat (min region (int (length (word r)))) = min (nat region) (length (word r))"
    using assms(2) by (simp add: min_def)
  have m: "take (min (nat region) (length (word r))) (word r) = take (nat region) (word r)"
    by (simp add: min_def)
  have "take (min (nat region) (length (word r))) (word r')
          = take (min (nat region) (length (word r))) (word r)"
    using removeEndings_frame [OF e assms(1)] by (simp only: m)
  then show ?thesis unfolding n using e by blast
qed

theorem removeEndings_keeps_prefix_witness:
  "\<exists>matched r'.
     removeEndings \<lparr>word = [cyr_ve, cyr_a, cyr_ze, cyr_yeru], RV = 2, R2 = 0\<rparr> 2 [suffixNoun]
       = Some (matched, r')
     \<and> take 2 (word r') = [cyr_ve, cyr_a]"
  using removeEndings_keeps_prefix
    [of "\<lparr>word = [cyr_ve, cyr_a, cyr_ze, cyr_yeru], RV = 2, R2 = 0\<rparr>" 2 "[suffixNoun]"]
  by (simp add: valid_rune_def)

subsection \<open>The stem of a word\<close>

text \<open>
  Claim C1. The base of "vazy" (the runes ve, a, ze, yeru) is "vaz", whatever state the
  receiver was left in by earlier calls.
\<close>

theorem GetWordBase_vazy:
  "map_option fst (GetWordBase r (string_of_runes [cyr_ve, cyr_a, cyr_ze, cyr_yeru]))
     = Some (string_of_runes [cyr_ve, cyr_a, cyr_ze])"
  by (simp add: stem_eval del: One_nat_def)

text \<open>The same result as bytes, on a fresh stemmer.\<close>

theorem GetWordBase_vazy_witness:
  "map_option fst (GetWordBase New (string_of_runes [cyr_ve, cyr_a, cyr_ze, cyr_yeru]))
     = Some [0xD0, 0xB2, 0xD0, 0xB0, 0xD0, 0xB7]"
  using GetWordBase_vazy [of New]
  by (simp add: string_of_runes_def EncodeRune_def valid_rune_def)

text \<open>
  Claim C8. \<^verbatim>\<open>GetWordBase\<close> returns a string for every input string: no index or slice
  bound is out of range on the way. One removal returns for every region that is not
  negative, however far beyond the length of the word it lies, and where the region
  leaves an empty tail (the word has shrunk to the boundary or below it) no suffix
  matches and the word stays as it is.
\<close>

theorem GetWordBase_total:
  "(\<exists>out r'. GetWordBase r s = Some (out, r'))
   \<and> (0 \<le> region \<and> packs \<noteq> [] \<longrightarrow> (\<exists>matched st'. removeEndings st region packs = Some (matched, st')))
   \<and> (int (length (word st)) \<le> region \<and> packs \<noteq> []
        \<longrightarrow> removeEndings st region packs = Some (False, st))"
  using GetWordBase_trims [of r s] removeEndings_total [of region packs st]
    removeEndings_empty_tail [of st region packs]
  by blast

text \<open>The empty string; and the word "vaz" with a boundary of 5, beyond its three runes.\<close>

theorem GetWordBase_total_witness:
  "(\<exists>out r'. GetWordBase New [] = Some (out, r'))
   \<and> (\<exists>matched st'. removeEndings \<lparr>word = [cyr_ve, cyr_a, cyr_ze], RV = 5, R2 = 0\<rparr> 5 [suffixNoun]
         = Some (matched, st'))
   \<and> removeEndings \<lparr>word = [cyr_ve, cyr_a, cyr_ze], RV = 5, R2 = 0\<rparr> 5 [suffixNoun]
         = Some (False, \<lparr>word = [cyr_ve, cyr_a, cyr_ze], RV = 5, R2 = 0\<rparr>)"
  using GetWordBase_total [of New "[]" 5 "[suffixNoun]"
      "\<lparr>word = [cyr_ve, cyr_a, cyr_ze], RV = 5, R2 = 0\<rparr>"]
  by auto

text \<open>
  Claim C10. The runes of the base are a prefix of the runes of the input: every step
  only takes runes off the end, and the "n" that step 4 appends stands where the first
  "n" of the removed "nn" stood. So the base is never longer than the input.
\<close>

theorem GetWordBase_prefix_of_input:
  "\<exists>out r'. GetWordBase r s = Some (out, r')
      \<and> prefix (runes_of_string out) (runes_of_string s)
      \<and> length (runes_of_string out) \<le> length (runes_of_string s)"
proof -
  obtain r' where g: "GetWordBase r s = Some (string_of_runes (word r'), r')"
    and p: "prefix (word r') (runes_of_string s)" and v: "valid_runes (word r')"
    using GetWordBase_trims [of r s] by blast
  have "runes_of_string (string_of_runes (word r')) = word r'"
    using v by (rule runes_of_string_of_runes)
  then show ?thesis using g p by (auto simp: prefix_length_le)
qed

theorem GetWordBase_prefix_of_input_witness:
  "\<exists>out r'. GetWordBase New (string_of_runes [cyr_o, cyr_en, cyr_a]) = Some (out, r')
      \<and> prefix (runes_of_string out) [cyr_o, cyr_en, cyr_a]
      \<and> length (runes_of_string out) \<le> length [cyr_o, cyr_en, cyr_a]"
  using GetWordBase_prefix_of_input [of New "string_of_runes [cyr_o, cyr_en, cyr_a]"]
  by (simp add: runes_of_string_of_runes valid_rune_def)

text \<open>
  Claim C5. In step 1, for every input word, the record of the calls is one of five:
  the gerund alone, removed; or the gerund not removed, the reflexive tried with either
  outcome, and then the participle removed; or the participle not removed and the
  adjective removed; or neither and the verb removed; or none of them and the noun tried.
  So nothing is tried after a removed gerund, the outcome of the reflexive decides
  nothing, and at most one ending other than the reflexive is removed.
\<close>

theorem Step1_one_branch:
  "\<exists>r1 log r2.
     findRegions (r\<lparr>word := runes_of_string s, RV := 0, R2 := 0\<rparr>) = Some r1
     \<and> Step1_attempts r1 = Some (log, r2) \<and> Step1 r1 = Some r2
     \<and> one_branch log
     \<and> length (filter (\<lambda>(e, ok). ok \<and> e \<noteq> Reflexive) log) \<le> 1"
proof -
  obtain r1 where 1: "findRegions (r\<lparr>word := runes_of_string s, RV := 0, R2 := 0\<rparr>) = Some r1"
    and ok: "regions_ok r1"
    using findRegions_total [where r = r and s = s] by blast
  obtain log r2 where 2: "Step1_attempts r1 = Some (log, r2)" "Step1 r1 = Some r2"
    and shape: "one_branch log"
    using Step1_attempts_shape [OF ok] by blast
  show ?thesis using 1 2 shape one_branch_success [OF shape] by blast
qed

text \<open>For "vazy" every kind is tried and the noun ending is the one removed.\<close>

theorem Step1_one_branch_witness:
  "(\<exists>r1 log r2.
      findRegions (New\<lparr>word := runes_of_string (string_of_runes [cyr_ve, cyr_a, cyr_ze, cyr_yeru]),
                        RV := 0, R2 := 0\<rparr>) = Some r1
      \<and> Step1_attempts r1 = Some (log, r2) \<and> Step1 r1 = Some r2
      \<and> one_branch log
      \<and> length (filter (\<lambda>(e, ok). ok \<and> e \<noteq> Reflexive) log) \<le> 1)
   \<and> Step1_attempts \<lparr>word = [cyr_ve, cyr_a, cyr_ze, cyr_yeru], RV = 2, R2 = 0\<rparr>
       = Some ([(PerfectiveGerund, False), (Reflexive, False), (Participle, False),
                (Adjective, False), (Verb, False), (Noun, True)],
               \<lparr>word = [cyr_ve, cyr_a, cyr_ze], RV = 2, R2 = 0\<rparr>)"
proof (rule conjI)
  show "\<exists>r1 log r2.
      findRegions (New\<lparr>word := runes_of_string (string_of_runes [cyr_ve, cyr_a, cyr_ze, cyr_yeru]),
                        RV := 0, R2 := 0\<rparr>) = Some r1
      \<and> Step1_attempts r1 = Some (log, r2) \<and> Step1 r1 = Some r2
      \<and> one_branch log
      \<and> length (filter (\<lambda>(e, ok). ok \<and> e \<noteq> Reflexive) log) \<le> 1"
    by (rule Step1_one_branch)
next
  show "Step1_attempts \<lparr>word = [cyr_ve, cyr_a, cyr_ze, cyr_yeru], RV = 2, R2 = 0\<rparr>
       = Some ([(PerfectiveGerund, False), (Reflexive, False), (Participle, False),
                (Adjective, False), (Verb, False), (Noun, True)],
               \<lparr>word = [cyr_ve, cyr_a, cyr_ze], RV = 2, R2 = 0\<rparr>)"
    by (simp add: Step1_attempts_def stem_eval del: One_nat_def)
qed

text \<open>
  Claim C6. The region finder is to put RV just after the first vowel of the word. Its
  loop starts at index 1 and, looking for the first vowel, tests only the rune at the
  index, so the rune at index 0 is never tested (\<open>findRegions_RV\<close> above: RV follows
  the first vowel of the word without its first rune). In "iva" the first vowel is the
  rune at index 0 and RV should be 1; the code sets RV to 3, after the "a". With the
  whole word before RV no ending is removed, and the base of "iva" is "iva".
\<close>

theorem findRegions_misses_leading_vowel:
  "first_vowel_from 0 (runes_of_string (string_of_runes [cyr_i, cyr_ve, cyr_a])) = Some 0
   \<and> findRegions (r\<lparr>word := runes_of_string (string_of_runes [cyr_i, cyr_ve, cyr_a]),
                     RV := 0, R2 := 0\<rparr>)
       = Some (r\<lparr>word := [cyr_i, cyr_ve, cyr_a], RV := 3, R2 := 0\<rparr>)
   \<and> map_option fst (GetWordBase r (string_of_runes [cyr_i, cyr_ve, cyr_a]))
       = Some (string_of_runes [cyr_i, cyr_ve, cyr_a])"
  by (simp add: stem_eval del: One_nat_def)

theorem findRegions_misses_leading_vowel_witness:
  "findRegions \<lparr>word = [cyr_i, cyr_ve, cyr_a], RV = 0, R2 = 0\<rparr>
     = Some \<lparr>word = [cyr_i, cyr_ve, cyr_a], RV = 3, R2 = 0\<rparr>"
  using findRegions_misses_leading_vowel [of New]
  by (simp add: New_def runes_of_string_of_runes valid_rune_def)

subsection \<open>Text normalisation\<close>

text \<open>
  Claim C2. On the address of the documented example \<^verbatim>\<open>NormalizeText\<close> finds the eight
  maximal runs of letters, digits and underscore, replaces each by its base and joins the
  bases with single spaces. The table of Unicode's category L is a parameter: the
  theorem needs of it that the sixteen Cyrillic letters of the text are letters and
  that the space, the comma and the full stop are not.
\<close>

theorem NormalizeText_example:
  assumes "list_all L [cyr_ghe, cyr_cap_em, cyr_o, cyr_es, cyr_ka, cyr_ve, cyr_a, cyr_u, cyr_el,
                       cyr_cap_pe, cyr_ya, cyr_er, cyr_en, cyr_de, cyr_cap_a, cyr_te]"
    and "\<not> L 0x20" and "\<not> L 0x2C" and "\<not> L 0x2E"
  shows "FindAllString L (string_of_runes example_text) = map string_of_runes example_words
    \<and> list_all2 (\<lambda>w b. map_option fst (GetWordBase r w) = Some b)
          (map string_of_runes example_words) (map string_of_runes example_bases)
    \<and> map_option fst (NormalizeText L r (string_of_runes example_text))
          = Some (string_of_runes example_normalized)"
proof -
  note F = FindAllString_example [OF assms]
  have B: "list_all2 (\<lambda>w b. \<forall>r. map_option fst (GetWordBase r w) = Some b)
          (map string_of_runes example_words) (map string_of_runes example_bases)"
    by (simp add: example_words_def example_bases_def base_ghe base_moskva base_ul
        base_polyarnaya base_de base_31a base_str base_1 del: map_option_eq_Some)
  then have B': "list_all2 (\<lambda>w b. map_option fst (GetWordBase r w) = Some b)
          (map string_of_runes example_words) (map string_of_runes example_bases)"
    by (rule list_all2_mono) simp
  obtain r' where L: "NormalizeText_loop r (map string_of_runes example_words)
                        = Some (map string_of_runes example_bases, r')"
    using NormalizeText_loop_bases [OF B, of r]
    by (cases "NormalizeText_loop r (map string_of_runes example_words)") auto
  have "map_option fst (NormalizeText L r (string_of_runes example_text))
          = Some (string_of_runes example_normalized)"
    by (simp add: NormalizeText_def F L Join_example)
  then show ?thesis using F B' by simp
qed

text \<open>With the Cyrillic letters from U+0410 to U+044F for the category L.\<close>

theorem NormalizeText_example_witness:
  "map_option fst (NormalizeText (\<lambda>c. 0x410 \<le> c \<and> c \<le> 0x44F) New (string_of_runes example_text))
     = Some (string_of_runes example_normalized)"
  using NormalizeText_example [of "\<lambda>c. 0x410 \<le> c \<and> c \<le> 0x44F" New]
  by simp

text \<open>
  Claim C9. \<^verbatim>\<open>NormalizeText\<close> returns the bases of the words of the text, one for each
  word and in their order, joined with single spaces: the list of bases is as long as
  the list of words, each base is what \<^verbatim>\<open>GetWordBase\<close> returns for its word in any state
  of the receiver, and, since no base contains a space, splitting the result at the
  spaces gives the bases back, the empty ones too. The category L must not contain the
  space. (A text without words gives the empty string.)
\<close>

theorem NormalizeText_keeps_every_field:
  assumes "\<not> L 0x20"
  shows "\<exists>bases r'.
     NormalizeText L r text = Some (Join bases (string_of_runes [0x20]), r')
     \<and> list_all2 (\<lambda>w b. \<forall>st. map_option fst (GetWordBase st w) = Some b)
           (FindAllString L text) bases
     \<and> (bases \<noteq> [] \<longrightarrow> space_fields (Join bases (string_of_runes [0x20])) = bases)"
proof -
  obtain bases r' where 1: "NormalizeText_loop r (FindAllString L text) = Some (bases, r')"
    and l: "list_all2 (\<lambda>w b. \<forall>st. map_option fst (GetWordBase st w) = Some b)
              (FindAllString L text) bases"
    and s: "\<forall>b \<in> set bases. 0x20 \<notin> set b"
    using NormalizeText_loop_total [of "FindAllString L text" r]
      FindAllString_space [of L "text"] assms by blast
  have "NormalizeText L r text = Some (Join bases (string_of_runes [0x20]), r')"
    by (simp add: NormalizeText_def 1)
  moreover have "bases \<noteq> [] \<longrightarrow> space_fields (Join bases (string_of_runes [0x20])) = bases"
    using space_fields_Join [OF s] by simp
  ultimately show ?thesis using l by blast
qed

text \<open>
  The text "a a" has two words, the base of each is the empty string, and the result
  is a single space: two empty fields.
\<close>

theorem NormalizeText_keeps_every_field_witness:
  "(\<exists>r'. NormalizeText (\<lambda>c. 0x410 \<le> c \<and> c \<le> 0x44F) New (string_of_runes [cyr_a, 0x20, cyr_a])
           = Some ([0x20], r'))
   \<and> space_fields [0x20] = [[], []]"
proof -
  let ?L = "\<lambda>c::rune. 0x410 \<le> c \<and> c \<le> 0x44F"
  let ?t = "string_of_runes [cyr_a, 0x20, cyr_a]"
  have "\<not> ?L 0x20" by simp
  from NormalizeText_keeps_every_field [of ?L New ?t, OF this]
  obtain bases r' where
    n: "NormalizeText ?L New ?t = Some (Join bases (string_of_runes [0x20]), r')"
    and l: "list_all2 (\<lambda>w b. \<forall>st. map_option fst (GetWordBase st w) = Some b)
              [string_of_runes [cyr_a], string_of_runes [cyr_a]] bases"
    unfolding FindAllString_a_a by blast
  have "bases = [[], []]"
    using bases_determined [OF l] by (simp add: base_a del: map_option_eq_Some)
  then have "Join bases (string_of_runes [0x20]) = [0x20]"
    by (simp add: space_literal)
  then show ?thesis using n by (simp add: space_fields_def)
qed

end
